theory Spec2Isabelle
  imports Complex_Main "HOL-Library.Word"
begin

section \<open>Data model\<close>

text \<open>
  The program (\<^verbatim>\<open>crop.py\<close>) computes with Python floats and Python integers. Python
  integers are modelled as \<open>nat\<close> (indices, counts) and \<open>int\<close>; Python floats are
  modelled as the real numbers, i.e. rounding of the floating-point operations is not part
  of the model. Grayscale pixels are bytes, \<open>8 word\<close>.
\<close>

datatype error = ZeroDivisionError | IndexError | ValueError

text \<open>
  \<^verbatim>\<open>fitz.Rect\<close>: four coordinates. The constructor stores its arguments unchanged; the
  properties \<^verbatim>\<open>width\<close> and \<^verbatim>\<open>height\<close> of PyMuPDF are \<^verbatim>\<open>max(0, x1 - x0)\<close> and
  \<^verbatim>\<open>max(0, y1 - y0)\<close>.
\<close>

record Rect =
  x0 :: real
  y0 :: real
  x1 :: real
  y1 :: real

definition fitz_Rect :: "real \<Rightarrow> real \<Rightarrow> real \<Rightarrow> real \<Rightarrow> Rect" where
  "fitz_Rect a b c d = \<lparr>x0 = a, y0 = b, x1 = c, y1 = d\<rparr>"

definition width :: "Rect \<Rightarrow> real" where
  "width r = max 0 (x1 r - x0 r)"

definition height :: "Rect \<Rightarrow> real" where
  "height r = max 0 (y1 r - y0 r)"

text \<open>
  A page as the program reads it: its rectangle \<^verbatim>\<open>page.rect\<close>, the grayscale array
  \<^verbatim>\<open>img_array\<close> that \<^verbatim>\<open>get_pixmap\<close> at zoom 2, \<^verbatim>\<open>Image.frombytes\<close> and
  \<^verbatim>\<open>convert('L')\<close> produce for it (a list of pixel rows), and whether the page has a
  content stream at all (\<^verbatim>\<open>page.get_contents()\<close> is not the empty list).
\<close>

record page =
  rect :: Rect
  img_array :: "8 word list list"
  has_contents :: bool

section \<open>The PDF library\<close>

text \<open>
  What the program uses of PyMuPDF beyond reading pages. A rectangle is empty
  (\<^verbatim>\<open>Rect.is_empty\<close>) when it has no width or no height; it counts as false
  (\<^verbatim>\<open>not clip\<close>) when its four coordinates are 0; \<^verbatim>\<open>a & b\<close> is the common part of two
  rectangles, empty when they do not overlap.
\<close>

definition is_empty :: "Rect \<Rightarrow> bool" where
  "is_empty r \<longleftrightarrow> x1 r \<le> x0 r \<or> y1 r \<le> y0 r"

definition is_zero :: "Rect \<Rightarrow> bool" where
  "is_zero r \<longleftrightarrow> x0 r = 0 \<and> y0 r = 0 \<and> x1 r = 0 \<and> y1 r = 0"

definition rect_and :: "Rect \<Rightarrow> Rect \<Rightarrow> Rect" where
  "rect_and a b =
     fitz_Rect (max (x0 a) (x0 b)) (max (y0 a) (y0 b)) (min (x1 a) (x1 b)) (min (y1 a) (y1 b))"

text \<open>
  \<^verbatim>\<open>new_page.show_pdf_page(target, doc, page_num, clip=clip)\<close> raises \<^verbatim>\<open>ValueError\<close> in
  three cases, tested in this order: the target rectangle is empty (``rect must be finite
  and not empty''); the source page has no contents (``nothing to show - source page
  empty''); the part of the source page that the clip selects is empty (``clip must be
  finite and not empty''). Otherwise it pastes the page. The library's one infinite
  rectangle is not modelled: rectangles are finite here.
\<close>

definition show_pdf_page :: "Rect \<Rightarrow> page \<Rightarrow> Rect \<Rightarrow> error + unit" where
  "show_pdf_page target src_page clip_rect =
     (if is_empty target then Inl ValueError
      else if \<not> has_contents src_page then Inl ValueError
      else let src_rect = (if is_zero clip_rect then rect src_page
                           else rect_and (rect src_page) clip_rect)
           in if is_empty src_rect then Inl ValueError else Inr ())"

text \<open>\<^verbatim>\<open>output_doc.save(...)\<close> raises on a document without pages.\<close>

definition save :: "'a list \<Rightarrow> error + unit" where
  "save output_pages = (if output_pages = [] then Inl ValueError else Inr ())"

section \<open>Python and numpy primitives\<close>

text \<open>\<^verbatim>\<open>int(x)\<close> on a float truncates towards zero.\<close>

definition py_int :: "real \<Rightarrow> int" where
  "py_int r = (if 0 \<le> r then \<lfloor>r\<rfloor> else \<lceil>r\<rceil>)"

text \<open>Float division raises on a zero divisor.\<close>

definition py_div :: "real \<Rightarrow> real \<Rightarrow> error + real" where
  "py_div a b = (if b = 0 then Inl ZeroDivisionError else Inr (a / b))"

text \<open>\<^verbatim>\<open>xs[start:]\<close>: a negative start counts from the end; the slice never raises.\<close>

definition slice_from :: "'a list \<Rightarrow> int \<Rightarrow> 'a list" where
  "slice_from xs start =
     (if start < 0 then drop (nat (int (length xs) + start)) xs else drop (nat start) xs)"

text \<open>\<^verbatim>\<open>np.any(a)\<close> on a vector, \<^verbatim>\<open>np.any(a, axis=1)\<close> (one flag per row) and
  \<^verbatim>\<open>np.any(a, axis=0)\<close> (one flag per column) on a two-dimensional array.\<close>

definition np_any :: "bool list \<Rightarrow> bool" where
  "np_any a = list_ex (\<lambda>b. b) a"

definition any_axis1 :: "bool list list \<Rightarrow> bool list" where
  "any_axis1 msk = map np_any msk"

definition shape1 :: "'a list list \<Rightarrow> nat" where
  "shape1 a = (case a of [] \<Rightarrow> 0 | r # _ \<Rightarrow> length r)"

definition any_axis0 :: "bool list list \<Rightarrow> bool list" where
  "any_axis0 msk = map (\<lambda>j. list_ex (\<lambda>row. row ! j) msk) [0..<shape1 msk]"

text \<open>\<^verbatim>\<open>np.where(a)[0]\<close>: the indices of the true entries, ascending.\<close>

definition np_where :: "bool list \<Rightarrow> nat list" where
  "np_where a = filter (\<lambda>i. a ! i) [0..<length a]"

text \<open>\<^verbatim>\<open>a[[0, -1]]\<close>: first and last element; raises on an empty array.\<close>

definition first_last :: "nat list \<Rightarrow> error + (nat \<times> nat)" where
  "first_last a = (case a of [] \<Rightarrow> Inl IndexError | _ # _ \<Rightarrow> Inr (hd a, last a))"

section \<open>The content-box detector: \<^verbatim>\<open>get_content_bbox\<close>\<close>

definition content_mask :: "8 word list list \<Rightarrow> real \<Rightarrow> bool list list" where
  "content_mask a threshold = map (map (\<lambda>p. real (unat p) < 255 * threshold)) a"

text \<open>
  The backward scan \<^verbatim>\<open>for i in range(len(content_rows) - 1, 0, -1)\<close>. The last argument
  is the loop variable \<open>i\<close>; the loop is entered with \<open>len(content_rows) - 1\<close> and is over
  at \<open>0\<close>. \<open>Some e\<close> is the \<^verbatim>\<open>break\<close> with \<^verbatim>\<open>main_content_end = e\<close>. All indices
  read are at most the initial \<open>i\<close>, so no read is out of range.
\<close>

fun scan_gaps :: "nat list \<Rightarrow> int \<Rightarrow> int \<Rightarrow> nat \<Rightarrow> nat option" where
  "scan_gaps content_rows gap_threshold footer_start 0 = None"
| "scan_gaps content_rows gap_threshold footer_start (Suc k) =
     (let gap_size = int (content_rows ! Suc k) - int (content_rows ! k) in
      if gap_size > gap_threshold \<and> int (content_rows ! Suc k) > footer_start
      then Some (content_rows ! k)
      else scan_gaps content_rows gap_threshold footer_start k)"

text \<open>The footer block (source lines 53 to 78): the value of \<^verbatim>\<open>y_max\<close> after it.\<close>

definition footer_y_max :: "bool list \<Rightarrow> nat \<Rightarrow> nat \<Rightarrow> nat \<Rightarrow> real \<Rightarrow> nat" where
  "footer_y_max rows page_height y_min y_max footer_height_ratio =
     (let footer_start = py_int (real page_height * (1 - footer_height_ratio));
          footer_rows = slice_from rows footer_start
      in if np_any footer_rows then
           let gap_threshold = py_int (real page_height * 0.02);
               content_rows = np_where rows;
               main_content_end =
                 (case scan_gaps content_rows gap_threshold footer_start
                         (length content_rows - 1) of
                    Some e \<Rightarrow> e
                  | None \<Rightarrow> y_max)
           in if main_content_end < y_max \<and> main_content_end > y_min
              then main_content_end else y_max
         else y_max)"

definition get_content_bbox :: "page \<Rightarrow> real \<Rightarrow> real \<Rightarrow> error + Rect" where
  "get_content_bbox pg threshold footer_height_ratio =
     (let msk = content_mask (img_array pg) threshold;
          rows = any_axis1 msk;
          cols = any_axis0 msk
      in if \<not> np_any rows \<or> \<not> np_any cols then Inr (rect pg)
         else
           (case first_last (np_where rows) of
              Inl e \<Rightarrow> Inl e
            | Inr (y_min, y_max) \<Rightarrow>
           (case first_last (np_where cols) of
              Inl e \<Rightarrow> Inl e
            | Inr (x_min, x_max) \<Rightarrow>
              (let page_height = length (img_array pg);
                   y_max' = footer_y_max rows page_height y_min y_max footer_height_ratio;
                   page_rect = rect pg
               in Inr (fitz_Rect (x0 page_rect + real x_min / 2)
                                 (y0 page_rect + real y_min / 2)
                                 (x0 page_rect + real x_max / 2)
                                 (y0 page_rect + real y_max' / 2))))))"

section \<open>The margin aggregator: \<^verbatim>\<open>analyze_pdf_margins\<close>\<close>

text \<open>\<^verbatim>\<open>range(0, n, step)\<close> for a positive step.\<close>

definition range_step :: "nat \<Rightarrow> nat \<Rightarrow> nat list" where
  "range_step n step = map (\<lambda>k. k * step) [0..<(n + step - 1) div step]"

text \<open>
  Source lines 99 to 103. Integer division by a zero \<^verbatim>\<open>sample_pages\<close> raises; a zero step
  makes \<^verbatim>\<open>range\<close> raise; a negative step gives the empty range.
\<close>

definition sample_indices :: "nat \<Rightarrow> int \<Rightarrow> error + nat list" where
  "sample_indices page_count sample_pages =
     (if int page_count \<le> sample_pages then Inr [0..<page_count]
      else if sample_pages = 0 then Inl ZeroDivisionError
      else let step = int page_count div sample_pages in
           if step = 0 then Inl ValueError
           else if step < 0 then Inr []
           else Inr (take (nat sample_pages) (range_step page_count (nat step))))"

text \<open>
  Source lines 110 to 116: the detector runs on each sampled page (with its default
  threshold 0.95); the two lists \<^verbatim>\<open>content_boxes\<close> and \<^verbatim>\<open>page_sizes\<close> grow together.
  The indices come from \<open>sample_indices\<close> and are below \<^verbatim>\<open>len(doc)\<close>.
\<close>

fun collect_boxes :: "page list \<Rightarrow> real \<Rightarrow> nat list \<Rightarrow> error + (Rect list \<times> Rect list)" where
  "collect_boxes doc footer_height_ratio [] = Inr ([], [])"
| "collect_boxes doc footer_height_ratio (i # rest) =
     (case get_content_bbox (doc ! i) 0.95 footer_height_ratio of
        Inl e \<Rightarrow> Inl e
      | Inr content_bbox \<Rightarrow>
        (case collect_boxes doc footer_height_ratio rest of
           Inl e \<Rightarrow> Inl e
         | Inr (content_boxes, page_sizes) \<Rightarrow>
             Inr (content_bbox # content_boxes, rect (doc ! i) # page_sizes)))"

text \<open>
  Source lines 121 to 135: the loop over \<^verbatim>\<open>zip(content_boxes, page_sizes)\<close>, with the four
  lists as accumulators. Each division raises on a page of zero width or height.
\<close>

fun margin_lists ::
  "(Rect \<times> Rect) list \<Rightarrow> real list \<times> real list \<times> real list \<times> real list \<Rightarrow>
   error + (real list \<times> real list \<times> real list \<times> real list)" where
  "margin_lists [] acc = Inr acc"
| "margin_lists ((content_box, page_rect) # rest)
       (left_margins, top_margins, right_margins, bottom_margins) =
     (case py_div (x0 content_box - x0 page_rect) (width page_rect) of
        Inl e \<Rightarrow> Inl e
      | Inr left_margin \<Rightarrow>
     (case py_div (y0 content_box - y0 page_rect) (height page_rect) of
        Inl e \<Rightarrow> Inl e
      | Inr top_margin \<Rightarrow>
     (case py_div (x1 page_rect - x1 content_box) (width page_rect) of
        Inl e \<Rightarrow> Inl e
      | Inr right_margin \<Rightarrow>
     (case py_div (y1 page_rect - y1 content_box) (height page_rect) of
        Inl e \<Rightarrow> Inl e
      | Inr bottom_margin \<Rightarrow>
          margin_lists rest
            (left_margins @ [max 0 left_margin], top_margins @ [max 0 top_margin],
             right_margins @ [max 0 right_margin], bottom_margins @ [max 0 bottom_margin])))))"

text \<open>
  \<^verbatim>\<open>np.percentile(a, q)\<close> with numpy's default linear interpolation: on the sorted data,
  the virtual index \<open>(n - 1) * q / 100\<close>, its two neighbours clipped to the array, and the
  interpolation between them. numpy rejects \<open>q\<close> outside \<open>[0, 100]\<close> and has no element to
  index in an empty array.
\<close>

definition np_percentile :: "real list \<Rightarrow> real \<Rightarrow> error + real" where
  "np_percentile a q =
     (if q < 0 \<or> 100 < q then Inl ValueError
      else if a = [] then Inl IndexError
      else let s = sort a;
               n = length a;
               virtual_index = real (n - 1) * (q / 100);
               previous = nat \<lfloor>virtual_index\<rfloor>;
               next = min (previous + 1) (n - 1);
               gamma = virtual_index - real previous
           in Inr (s ! previous + (s ! next - s ! previous) * gamma))"

text \<open>Source lines 139 to 142: one suggested margin.\<close>

definition suggested :: "real list \<Rightarrow> real \<Rightarrow> error + real" where
  "suggested margins buffer =
     (case np_percentile margins 25 of Inl e \<Rightarrow> Inl e | Inr p \<Rightarrow> Inr (max 0 (p - buffer)))"

text \<open>Source lines 120 to 144: from the samples to the four suggested margins.\<close>

definition suggest_margins ::
  "Rect list \<Rightarrow> Rect list \<Rightarrow> real \<Rightarrow> error + (real \<times> real \<times> real \<times> real)" where
  "suggest_margins content_boxes page_sizes buffer =
     (case margin_lists (zip content_boxes page_sizes) ([], [], [], []) of
        Inl e \<Rightarrow> Inl e
      | Inr (left_margins, top_margins, right_margins, bottom_margins) \<Rightarrow>
     (case suggested left_margins buffer of Inl e \<Rightarrow> Inl e | Inr suggested_left \<Rightarrow>
     (case suggested top_margins buffer of Inl e \<Rightarrow> Inl e | Inr suggested_top \<Rightarrow>
     (case suggested right_margins buffer of Inl e \<Rightarrow> Inl e | Inr suggested_right \<Rightarrow>
     (case suggested bottom_margins buffer of Inl e \<Rightarrow> Inl e | Inr suggested_bottom \<Rightarrow>
        Inr (suggested_left, suggested_top, suggested_right, suggested_bottom))))))"

definition analyze_pdf_margins ::
  "page list \<Rightarrow> int \<Rightarrow> real \<Rightarrow> real \<Rightarrow> error + (real \<times> real \<times> real \<times> real)" where
  "analyze_pdf_margins doc sample_pages buffer footer_height_ratio =
     (case sample_indices (length doc) sample_pages of
        Inl e \<Rightarrow> Inl e
      | Inr indices \<Rightarrow>
     (case collect_boxes doc footer_height_ratio indices of
        Inl e \<Rightarrow> Inl e
      | Inr (content_boxes, page_sizes) \<Rightarrow>
          suggest_margins content_boxes page_sizes buffer))"

section \<open>The uniform-canvas crop: \<^verbatim>\<open>crop_pdf\<close>\<close>

text \<open>The crop rectangle of a page (source lines 175 to 178 and again 196 to 199).\<close>

definition crop_left :: "Rect \<Rightarrow> real \<Rightarrow> real" where
  "crop_left page_rect left = x0 page_rect + width page_rect * left"

definition crop_top :: "Rect \<Rightarrow> real \<Rightarrow> real" where
  "crop_top page_rect top' = y0 page_rect + height page_rect * top'"

definition crop_right :: "Rect \<Rightarrow> real \<Rightarrow> real" where
  "crop_right page_rect right = x1 page_rect - width page_rect * right"

definition crop_bottom :: "Rect \<Rightarrow> real \<Rightarrow> real" where
  "crop_bottom page_rect bottom = y1 page_rect - height page_rect * bottom"

text \<open>The cropped dimensions as the first pass computes them (lines 180 and 181).\<close>

definition cropped_width :: "Rect \<Rightarrow> real \<Rightarrow> real \<Rightarrow> real" where
  "cropped_width page_rect left right = crop_right page_rect right - crop_left page_rect left"

definition cropped_height :: "Rect \<Rightarrow> real \<Rightarrow> real \<Rightarrow> real" where
  "cropped_height page_rect top' bottom = crop_bottom page_rect bottom - crop_top page_rect top'"

text \<open>First pass (lines 167 to 184); the accumulator is \<^verbatim>\<open>(max_width, max_height)\<close>.\<close>

fun first_pass ::
  "page list \<Rightarrow> real \<Rightarrow> real \<Rightarrow> real \<Rightarrow> real \<Rightarrow> real \<times> real \<Rightarrow> real \<times> real" where
  "first_pass [] left top' right bottom (max_width, max_height) = (max_width, max_height)"
| "first_pass (pg # rest) left top' right bottom (max_width, max_height) =
     first_pass rest left top' right bottom
       (max max_width (cropped_width (rect pg) left right),
        max max_height (cropped_height (rect pg) top' bottom))"

text \<open>
  One output page: the size given to \<^verbatim>\<open>new_page\<close>, the numbers of the transform, and the
  arguments of \<^verbatim>\<open>show_pdf_page\<close> (target rectangle, source page number, clip).
\<close>

record out_page =
  new_width :: real
  new_height :: real
  scale_x :: real
  scale_y :: real
  scale :: real
  offset_x :: real
  offset_y :: real
  target_rect :: Rect
  source_page :: nat
  clip :: Rect

text \<open>
  The numbers of one iteration of the second loop (lines 192 to 225): the crop rectangle,
  the new page's size, the scale factors, the offsets and the target rectangle. The paste
  of line 228 is in \<open>second_pass\<close> below.
\<close>

definition place_page ::
  "Rect \<Rightarrow> nat \<Rightarrow> real \<Rightarrow> real \<Rightarrow> real \<Rightarrow> real \<Rightarrow> real \<Rightarrow> real \<Rightarrow> error + out_page" where
  "place_page page_rect page_num left top' right bottom max_width max_height =
     (let crop_rect = fitz_Rect (crop_left page_rect left) (crop_top page_rect top')
                                (crop_right page_rect right) (crop_bottom page_rect bottom);
          cropped_w = width crop_rect;
          cropped_h = height crop_rect
      in case (if cropped_w > 0 then py_div max_width cropped_w else Inr 1) of
           Inl e \<Rightarrow> Inl e
         | Inr sx \<Rightarrow>
         (case (if cropped_h > 0 then py_div max_height cropped_h else Inr 1) of
           Inl e \<Rightarrow> Inl e
         | Inr sy \<Rightarrow>
             let sc = min sx sy;
                 scaled_width = cropped_w * sc;
                 scaled_height = cropped_h * sc;
                 ox = (max_width - scaled_width) / 2;
                 oy = (max_height - scaled_height) / 2
             in Inr \<lparr>new_width = max_width, new_height = max_height,
                     scale_x = sx, scale_y = sy, scale = sc,
                     offset_x = ox, offset_y = oy,
                     target_rect = fitz_Rect ox oy (ox + scaled_width) (oy + scaled_height),
                     source_page = page_num, clip = crop_rect\<rparr>))"

text \<open>
  Second pass (lines 189 to 232): each iteration creates the new page, computes the
  transform and pastes the source page (line 228); an exception of the paste ends the
  loop and the operation.
\<close>

fun second_pass ::
  "page list \<Rightarrow> nat \<Rightarrow> real \<Rightarrow> real \<Rightarrow> real \<Rightarrow> real \<Rightarrow> real \<Rightarrow> real \<Rightarrow>
   error + out_page list" where
  "second_pass [] page_num left top' right bottom max_width max_height = Inr []"
| "second_pass (pg # rest) page_num left top' right bottom max_width max_height =
     (case place_page (rect pg) page_num left top' right bottom max_width max_height of
        Inl e \<Rightarrow> Inl e
      | Inr new_page \<Rightarrow>
        (case show_pdf_page (target_rect new_page) pg (clip new_page) of
           Inl e \<Rightarrow> Inl e
         | Inr _ \<Rightarrow>
        (case second_pass rest (Suc page_num) left top' right bottom max_width max_height of
           Inl e \<Rightarrow> Inl e
         | Inr output_doc \<Rightarrow> Inr (new_page # output_doc))))"

record crop_result =
  canvas_width :: real
  canvas_height :: real
  output_doc :: "out_page list"
  original_page_count :: nat
  output_page_count :: nat

text \<open>\<^verbatim>\<open>x if x is not None else auto_x\<close>.\<close>

definition or_auto :: "real option \<Rightarrow> real \<Rightarrow> real" where
  "or_auto v auto_v = (case v of Some x \<Rightarrow> x | None \<Rightarrow> auto_v)"

text \<open>
  Lines 155 to 162: the margins in use. The analysis runs only when a margin is
  \<^verbatim>\<open>None\<close>, on all pages (\<^verbatim>\<open>sample_pages\<close> has its default 99999999).
\<close>

definition margins_in_use ::
  "page list \<Rightarrow> real option \<Rightarrow> real option \<Rightarrow> real option \<Rightarrow> real option \<Rightarrow> real \<Rightarrow> real \<Rightarrow>
   error + (real \<times> real \<times> real \<times> real)" where
  "margins_in_use doc left top' right bottom buffer footer_height_ratio =
     (case (left, top', right, bottom) of
        (Some l, Some t, Some r, Some b) \<Rightarrow> Inr (l, t, r, b)
      | _ \<Rightarrow>
        (case analyze_pdf_margins doc 99999999 buffer footer_height_ratio of
           Inl e \<Rightarrow> Inl e
         | Inr (auto_left, auto_top, auto_right, auto_bottom) \<Rightarrow>
             Inr (or_auto left auto_left, or_auto top' auto_top,
                  or_auto right auto_right, or_auto bottom auto_bottom)))"

text \<open>
  \<^verbatim>\<open>crop_pdf\<close>: the margins, the two passes, the page counts (lines 235 and 236), and
  the save of line 241. The counts are printed (line 246) only after the save.
\<close>

definition crop_pdf ::
  "page list \<Rightarrow> real option \<Rightarrow> real option \<Rightarrow> real option \<Rightarrow> real option \<Rightarrow> real \<Rightarrow> real \<Rightarrow>
   error + crop_result" where
  "crop_pdf doc left top' right bottom buffer footer_height_ratio =
     (case margins_in_use doc left top' right bottom buffer footer_height_ratio of
        Inl e \<Rightarrow> Inl e
      | Inr (l, t, r, b) \<Rightarrow>
          (case first_pass doc l t r b (0, 0) of
             (max_width, max_height) \<Rightarrow>
          (case second_pass doc 0 l t r b max_width max_height of
             Inl e \<Rightarrow> Inl e
           | Inr pages \<Rightarrow>
          (case save pages of
             Inl e \<Rightarrow> Inl e
           | Inr _ \<Rightarrow>
               Inr \<lparr>canvas_width = max_width, canvas_height = max_height,
                    output_doc = pages,
                    original_page_count = length doc,
                    output_page_count = length pages\<rparr>))))"

section \<open>Manual crop: \<^verbatim>\<open>PDFCropGUI.crop_pdf\<close>\<close>

text \<open>\<^verbatim>\<open>round(x)\<close> on a float: to the nearest integer, a tie to the even one.\<close>

definition py_round :: "real \<Rightarrow> int" where
  "py_round x =
     (let f = \<lfloor>x\<rfloor>; d = x - of_int f
      in if d < 1 / 2 then f else if 1 / 2 < d then f + 1 else if even f then f else f + 1)"

text \<open>
  \<^verbatim>\<open>collections.Counter\<close> over a list: keys in order of first occurrence, each with its
  count. \<^verbatim>\<open>most_common(1)\<close> is the first entry of greatest count; indexing its result
  with \<^verbatim>\<open>[0]\<close> raises when the counter is empty.
\<close>

fun counter_add :: "'a \<Rightarrow> ('a \<times> nat) list \<Rightarrow> ('a \<times> nat) list" where
  "counter_add k [] = [(k, 1)]"
| "counter_add k ((k', c) # rest) =
     (if k = k' then (k', c + 1) # rest else (k', c) # counter_add k rest)"

definition Counter :: "'a list \<Rightarrow> ('a \<times> nat) list" where
  "Counter xs = foldl (\<lambda>c k. counter_add k c) [] xs"

fun first_max :: "'a \<times> nat \<Rightarrow> ('a \<times> nat) list \<Rightarrow> 'a \<times> nat" where
  "first_max best [] = best"
| "first_max best (kv # rest) = first_max (if snd best < snd kv then kv else best) rest"

definition most_common_1 :: "('a \<times> nat) list \<Rightarrow> error + ('a \<times> nat)" where
  "most_common_1 c = (case c of [] \<Rightarrow> Inl IndexError | kv # rest \<Rightarrow> Inr (first_max kv rest))"

text \<open>The rounded size of a page (lines 574 to 576, and 611 and 612).\<close>

definition rounded_size :: "page \<Rightarrow> int \<times> int" where
  "rounded_size pg = (py_round (width (rect pg)), py_round (height (rect pg)))"

text \<open>
  The state of the window that the method reads: the document, the page range of the two
  spin boxes, and the rectangle of the page on display.
\<close>

record gui =
  doc :: "page list"
  min_page :: int
  max_page :: int
  page_rect :: Rect

text \<open>
  An output page of the manual crop: a new page of the crop rectangle's size showing the
  clipped source page, or the source page inserted as it is.
\<close>

datatype manual_page =
  Cropped real real Rect nat Rect
| Inserted nat page

text \<open>
  The loop of lines 609 to 630; the accumulator is the output and the two counters. An
  exception of the paste (line 625) ends the loop.
\<close>

fun manual_loop ::
  "page list \<Rightarrow> nat \<Rightarrow> int \<Rightarrow> int \<Rightarrow> int \<times> int \<Rightarrow> Rect \<Rightarrow>
   manual_page list \<times> nat \<times> nat \<Rightarrow> error + (manual_page list \<times> nat \<times> nat)" where
  "manual_loop [] page_num lo hi most_common_size crop_rect acc = Inr acc"
| "manual_loop (pg # rest) page_num lo hi most_common_size crop_rect
       (out, cropped_pages, unchanged_pages) =
     (let page_width = py_round (width (rect pg));
          page_height = py_round (height (rect pg));
          current_page_num = int page_num + 1
      in if (lo \<le> current_page_num \<and> current_page_num \<le> hi) \<and>
            (page_width, page_height) = most_common_size
         then
           (let cropped_w = width crop_rect; cropped_h = height crop_rect;
                target = fitz_Rect 0 0 cropped_w cropped_h
            in case show_pdf_page target pg crop_rect of
                 Inl e \<Rightarrow> Inl e
               | Inr _ \<Rightarrow>
                   manual_loop rest (Suc page_num) lo hi most_common_size crop_rect
                     (out @ [Cropped cropped_w cropped_h target page_num crop_rect],
                      cropped_pages + 1, unchanged_pages))
         else
           manual_loop rest (Suc page_num) lo hi most_common_size crop_rect
             (out @ [Inserted page_num pg], cropped_pages, unchanged_pages + 1))"

record manual_result =
  most_common :: "int \<times> int"
  most_common_count :: nat
  pages_out :: "manual_page list"
  cropped :: nat
  unchanged :: nat

text \<open>
  The method from line 566 on, with the crop rectangle already in PDF coordinates. The
  divisions are those of lines 581 and 602 (the percentages of the log, by the width and
  height of the page on display); then the loop, and the save of line 632. Any exception
  ends the method with the error dialog, and nothing is written.
\<close>

definition manual_crop_pdf :: "gui \<Rightarrow> Rect \<Rightarrow> error + manual_result" where
  "manual_crop_pdf self crop_rect =
     (let page_sizes = map rounded_size (doc self);
          size_counts = Counter page_sizes
      in case most_common_1 size_counts of
           Inl e \<Rightarrow> Inl e
         | Inr (most_common_size, count) \<Rightarrow>
         (case py_div (real count) (real (length (doc self))) of
           Inl e \<Rightarrow> Inl e
         | Inr most_common_fraction \<Rightarrow>
             if width (page_rect self) = 0 \<or> height (page_rect self) = 0
             then Inl ZeroDivisionError
             else
               (case manual_loop (doc self) 0 (min_page self) (max_page self)
                       most_common_size crop_rect ([], 0, 0) of
                  Inl e \<Rightarrow> Inl e
                | Inr (out, cropped_pages, unchanged_pages) \<Rightarrow>
               (case save out of
                  Inl e \<Rightarrow> Inl e
                | Inr _ \<Rightarrow>
                    Inr \<lparr>most_common = most_common_size, most_common_count = count,
                         pages_out = out, cropped = cropped_pages,
                         unchanged = unchanged_pages\<rparr>))))"

section \<open>The statements of the specification\<close>

subsection \<open>Rectangles and rendered pages\<close>

text \<open>
  A rectangle \<open>box\<close> lies inside a page rectangle \<open>pg\<close>: it is a rectangle, and none of
  its four coordinates exceeds the corresponding bound of \<open>pg\<close>.
\<close>

definition inside :: "Rect \<Rightarrow> Rect \<Rightarrow> bool" where
  "inside box pg \<longleftrightarrow>
     x0 pg \<le> x0 box \<and> x0 box \<le> x1 box \<and> x1 box \<le> x1 pg \<and>
     y0 pg \<le> y0 box \<and> y0 box \<le> y1 box \<and> y1 box \<le> y1 pg"

text \<open>
  What the detector relies on from the rasterizer. \<^verbatim>\<open>get_pixmap\<close> at zoom 2 gives a grid
  whose width and height are twice the page's, rounded up to whole pixels; so the grid has
  at most \<open>2 * width + 1\<close> columns and \<open>2 * height + 1\<close> rows. The page rectangle itself is
  a rectangle.
\<close>

definition rendered :: "page \<Rightarrow> bool" where
  "rendered pg \<longleftrightarrow>
     x0 (rect pg) \<le> x1 (rect pg) \<and> y0 (rect pg) \<le> y1 (rect pg) \<and>
     real (shape1 (img_array pg)) \<le> 2 * (x1 (rect pg) - x0 (rect pg)) + 1 \<and>
     real (length (img_array pg)) \<le> 2 * (y1 (rect pg) - y0 (rect pg)) + 1"

subsection \<open>Footer gaps\<close>

text \<open>
  \<open>cr\<close> is the ascending list of content rows and \<open>H\<close> the number of pixel rows. At index
  \<open>i\<close> there is a wide gap when rows \<open>cr ! (i - 1)\<close> and \<open>cr ! i\<close> are more than 2 percent
  of \<open>H\<close> apart. The footer band starts at row \<open>fs\<close>: a wide gap is a footer gap when its
  later row is beyond \<open>fs\<close>, and a band gap when its later row is in the band, the row
  \<open>fs\<close> included.
\<close>

definition wide_gap :: "nat list \<Rightarrow> nat \<Rightarrow> nat \<Rightarrow> bool" where
  "wide_gap cr H i \<longleftrightarrow>
     0 < i \<and> i < length cr \<and> real H * 0.02 < real (cr ! i) - real (cr ! (i - 1))"

definition footer_gap :: "nat list \<Rightarrow> nat \<Rightarrow> int \<Rightarrow> nat \<Rightarrow> bool" where
  "footer_gap cr H fs i \<longleftrightarrow> wide_gap cr H i \<and> fs < int (cr ! i)"

definition band_gap :: "nat list \<Rightarrow> nat \<Rightarrow> int \<Rightarrow> nat \<Rightarrow> bool" where
  "band_gap cr H fs i \<longleftrightarrow> wide_gap cr H i \<and> fs \<le> int (cr ! i)"

text \<open>
  The footer step in the words of the specification: when the band holds a content row,
  the first gap from the bottom that is wide and whose later row lies in the band ends the
  content at the row before it, unless that row is above the top content row.
\<close>

definition claimed_footer_end :: "nat list \<Rightarrow> nat \<Rightarrow> int \<Rightarrow> nat" where
  "claimed_footer_end cr H fs =
     (if \<exists>y \<in> set cr. fs \<le> int y then
        (case filter (\<lambda>i. real H * 0.02 < real (cr ! i) - real (cr ! (i - 1)) \<and> fs \<le> int (cr ! i))
                (rev [1..<length cr]) of
           [] \<Rightarrow> last cr
         | i # _ \<Rightarrow> if cr ! (i - 1) < hd cr then last cr else cr ! (i - 1))
      else last cr)"

subsection \<open>The aggregator in the words of the specification\<close>

text \<open>
  The raw margin fractions of a sample (content box, page rectangle), the 25th percentile
  with linear interpolation between the two closest ranks of the sorted data, and the
  four margins: the percentile of the fractions clamped at \<open>0\<close>, less the buffer, clamped
  at \<open>0\<close> again.
\<close>

definition raw_left :: "Rect \<Rightarrow> Rect \<Rightarrow> real" where
  "raw_left box pg = (x0 box - x0 pg) / (x1 pg - x0 pg)"

definition raw_top :: "Rect \<Rightarrow> Rect \<Rightarrow> real" where
  "raw_top box pg = (y0 box - y0 pg) / (y1 pg - y0 pg)"

definition raw_right :: "Rect \<Rightarrow> Rect \<Rightarrow> real" where
  "raw_right box pg = (x1 pg - x1 box) / (x1 pg - x0 pg)"

definition raw_bottom :: "Rect \<Rightarrow> Rect \<Rightarrow> real" where
  "raw_bottom box pg = (y1 pg - y1 box) / (y1 pg - y0 pg)"

definition percentile_25 :: "real list \<Rightarrow> real" where
  "percentile_25 xs =
     (let s = sort xs; h = real (length xs - 1) / 4
      in s ! nat \<lfloor>h\<rfloor> + (h - of_int \<lfloor>h\<rfloor>) * (s ! nat \<lceil>h\<rceil> - s ! nat \<lfloor>h\<rfloor>))"

definition aggregate :: "(Rect \<times> Rect) list \<Rightarrow> real \<Rightarrow> real \<times> real \<times> real \<times> real" where
  "aggregate samples buffer =
     (max 0 (percentile_25 (map (\<lambda>(box, pg). max 0 (raw_left box pg)) samples) - buffer),
      max 0 (percentile_25 (map (\<lambda>(box, pg). max 0 (raw_top box pg)) samples) - buffer),
      max 0 (percentile_25 (map (\<lambda>(box, pg). max 0 (raw_right box pg)) samples) - buffer),
      max 0 (percentile_25 (map (\<lambda>(box, pg). max 0 (raw_bottom box pg)) samples) - buffer))"

subsection \<open>The gate of the manual crop\<close>

text \<open>
  Page number \<open>i\<close> (counted from 0) is cropped when its 1-based number lies in the range
  and its rounded size is the given one; \<open>manual_page_of\<close> is the output page it then gets.
\<close>

definition to_crop :: "int \<Rightarrow> int \<Rightarrow> int \<times> int \<Rightarrow> nat \<Rightarrow> page \<Rightarrow> bool" where
  "to_crop lo hi size0 i pg \<longleftrightarrow>
     (lo \<le> int i + 1 \<and> int i + 1 \<le> hi) \<and> rounded_size pg = size0"

definition manual_page_of :: "int \<Rightarrow> int \<Rightarrow> int \<times> int \<Rightarrow> Rect \<Rightarrow> nat \<Rightarrow> page \<Rightarrow> manual_page" where
  "manual_page_of lo hi size0 crop_rect i pg =
     (if to_crop lo hi size0 i pg
      then Cropped (width crop_rect) (height crop_rect)
             (fitz_Rect 0 0 (width crop_rect) (height crop_rect)) i crop_rect
      else Inserted i pg)"

text \<open>The pages that the paste of the manual crop accepts (line 625).\<close>

definition pastes :: "Rect \<Rightarrow> page \<Rightarrow> bool" where
  "pastes crop_rect pg \<longleftrightarrow>
     show_pdf_page (fitz_Rect 0 0 (width crop_rect) (height crop_rect)) pg crop_rect = Inr ()"

subsection \<open>Example documents\<close>

text \<open>
  A page with a body on rows 1 to 3 and a mark on row 8; a page with one line on row 2 and
  a mark on row 9; a page with a block in the middle and a dot in the bottom right corner;
  a page whose only dark pixel is in its top left corner.
\<close>

definition body_and_footer :: page where
  "body_and_footer =
     \<lparr>rect = fitz_Rect 0 0 1 5,
      img_array = [[255], [0], [0], [0], [255], [255], [255], [255], [0], [255]], has_contents = True\<rparr>"

definition line_and_footer :: page where
  "line_and_footer =
     \<lparr>rect = fitz_Rect 0 0 1 5,
      img_array = [[255], [255], [0], [255], [255], [255], [255], [255], [255], [0]], has_contents = True\<rparr>"

definition framed_page :: page where
  "framed_page =
     \<lparr>rect = fitz_Rect 0 0 2 2,
      img_array = [[255, 255, 255, 255], [255, 0, 0, 255], [255, 0, 0, 255], [255, 255, 255, 0]], has_contents = True\<rparr>"

definition corner_page :: page where
  "corner_page = \<lparr>rect = fitz_Rect 0 0 1 1, img_array = [[0, 255], [255, 255]], has_contents = True\<rparr>"

text \<open>
  A page of 100 by 100 (its pixels are not read when the margins are given), and a page
  whose pixels are all white.
\<close>

definition half_cropped_page :: page where
  "half_cropped_page = \<lparr>rect = fitz_Rect 0 0 100 100, img_array = [], has_contents = True\<rparr>"

definition white_page :: page where
  "white_page =
     \<lparr>rect = fitz_Rect 0 0 1 1, img_array = [[255, 255], [255, 255]], has_contents = True\<rparr>"

text \<open>Two pages of different sizes, and what a crop of a tenth on each side makes of them.\<close>

definition two_pages :: "page list" where
  "two_pages = [\<lparr>rect = fitz_Rect 0 0 100 100, img_array = [], has_contents = True\<rparr>,
                \<lparr>rect = fitz_Rect 0 0 50 200, img_array = [], has_contents = True\<rparr>]"

definition two_pages_cropped :: crop_result where
  "two_pages_cropped =
     \<lparr>canvas_width = 80, canvas_height = 160,
      output_doc =
        [\<lparr>new_width = 80, new_height = 160, scale_x = 1, scale_y = 2, scale = 1,
           offset_x = 0, offset_y = 40, target_rect = fitz_Rect 0 40 80 120,
           source_page = 0, clip = fitz_Rect 10 10 90 90\<rparr>,
         \<lparr>new_width = 80, new_height = 160, scale_x = 2, scale_y = 1, scale = 1,
           offset_x = 20, offset_y = 0, target_rect = fitz_Rect 20 0 60 160,
           source_page = 1, clip = fitz_Rect 5 20 45 180\<rparr>],
      original_page_count = 2, output_page_count = 2\<rparr>"

text \<open>Four pages: three close to 600 by 800, one of 400 by 600.\<close>

definition mixed_doc :: "page list" where
  "mixed_doc = [\<lparr>rect = fitz_Rect 0 0 600 800, img_array = [], has_contents = True\<rparr>,
                \<lparr>rect = fitz_Rect 0 0 400 600, img_array = [], has_contents = True\<rparr>,
                \<lparr>rect = fitz_Rect 0 0 (1201 / 2) 800, img_array = [], has_contents = True\<rparr>,
                \<lparr>rect = fitz_Rect 0 0 600 800, img_array = [], has_contents = True\<rparr>]"

section \<open>Properties of the detector\<close>

lemma np_any_iff: "np_any a \<longleftrightarrow> True \<in> set a"
  by (auto simp: np_any_def list_ex_iff)

lemma np_where_set: "set (np_where a) = {i. i < length a \<and> a ! i}"
  by (auto simp: np_where_def)

lemma np_where_nonempty: "np_any a \<Longrightarrow> np_where a \<noteq> []"
proof -
  assume "np_any a"
  then obtain i where "i < length a" "a ! i"
    by (auto simp: np_any_iff in_set_conv_nth)
  then have "i \<in> set (np_where a)"
    by (simp add: np_where_set)
  then show ?thesis by auto
qed

lemma first_last_ok: "a \<noteq> [] \<Longrightarrow> first_last a = Inr (hd a, last a)"
  by (cases a) (simp_all add: first_last_def)

lemma no_content_rows:
  assumes "\<forall>row \<in> set a. \<forall>p \<in> set row. \<not> real (unat p) < 255 * threshold"
  shows "\<not> np_any (any_axis1 (content_mask a threshold))"
  using assms by (auto simp: np_any_iff any_axis1_def content_mask_def)

lemma get_content_bbox_total: "\<exists>r. get_content_bbox pg threshold ratio = Inr r"
proof -
  let ?mask = "content_mask (img_array pg) threshold"
  show ?thesis
  proof (cases "\<not> np_any (any_axis1 ?mask) \<or> \<not> np_any (any_axis0 ?mask)")
    case True
    then show ?thesis by (auto simp: get_content_bbox_def Let_def)
  next
    case False
    then have "np_where (any_axis1 ?mask) \<noteq> []" "np_where (any_axis0 ?mask) \<noteq> []"
      by (simp_all add: np_where_nonempty)
    then show ?thesis
      using False by (simp add: get_content_bbox_def Let_def first_last_ok)
  qed
qed

text \<open>
  C8. A page in which no pixel's grayscale value is below \<open>255 * threshold\<close> has no content
  pixel; for it the detector returns exactly the page rectangle \<^verbatim>\<open>page.rect\<close>. The case is
  an ordinary return, and on every input the detector returns a rectangle: none of its
  index reads raises.
\<close>

theorem blank_page_returns_page_rect:
  "(\<exists>r. get_content_bbox pg threshold ratio = Inr r) \<and>
   ((\<forall>row \<in> set (img_array pg). \<forall>p \<in> set row. \<not> real (unat p) < 255 * threshold)
      \<longrightarrow> get_content_bbox pg threshold ratio = Inr (rect pg))"
proof
  show "\<exists>r. get_content_bbox pg threshold ratio = Inr r"
    by (rule get_content_bbox_total)
next
  show "(\<forall>row \<in> set (img_array pg). \<forall>p \<in> set row. \<not> real (unat p) < 255 * threshold)
      \<longrightarrow> get_content_bbox pg threshold ratio = Inr (rect pg)"
    using no_content_rows [of "img_array pg" threshold]
    by (simp add: get_content_bbox_def Let_def)
qed

theorem blank_page_returns_page_rect_witness:
  "get_content_bbox \<lparr>rect = fitz_Rect 0 0 1 1, img_array = [[255, 255], [255, 250]], has_contents = True\<rparr>
     (95 / 100) (1 / 10) = Inr (fitz_Rect 0 0 1 1)"
proof -
  have blank: "\<forall>row \<in> set [[255, 255], [255, 250 :: 8 word]]. \<forall>p \<in> set row.
      \<not> real (unat p) < 255 * (95 / 100)"
    by simp
  show ?thesis
    using blank blank_page_returns_page_rect
      [of "\<lparr>rect = fitz_Rect 0 0 1 1, img_array = [[255, 255], [255, 250]], has_contents = True\<rparr>" "95 / 100" "1 / 10"]
    by simp
qed

lemma np_where_strict: "sorted_wrt (<) (np_where a)"
  by (simp add: np_where_def sorted_wrt_filter)

lemma np_where_nth_less:
  "i < j \<Longrightarrow> j < length (np_where a) \<Longrightarrow> np_where a ! i < np_where a ! j"
  using sorted_wrt_nth_less [OF np_where_strict] by blast

lemma np_where_less: "i \<in> set (np_where a) \<Longrightarrow> i < length a"
  by (simp add: np_where_set)

lemma np_where_hd_le_last:
  assumes "np_where a \<noteq> []"
  shows "hd (np_where a) \<le> last (np_where a)" and "last (np_where a) < length a"
proof -
  let ?w = "np_where a"
  have "hd ?w = ?w ! 0" using assms by (simp add: hd_conv_nth)
  moreover have "last ?w = ?w ! (length ?w - 1)" using assms by (simp add: last_conv_nth)
  moreover have "?w ! 0 \<le> ?w ! (length ?w - 1)"
  proof (cases "length ?w - 1 = 0")
    case True
    then show ?thesis by simp
  next
    case False
    then have "?w ! 0 < ?w ! (length ?w - 1)"
      by (intro np_where_nth_less) simp_all
    then show ?thesis by simp
  qed
  ultimately show "hd ?w \<le> last ?w" by simp
  have "last ?w \<in> set ?w" using assms by simp
  then show "last ?w < length a" by (rule np_where_less)
qed

lemma nth_True_mem: "i < length a \<Longrightarrow> a ! i \<Longrightarrow> True \<in> set a"
  using nth_mem [of i a] by simp

lemma np_where_any: "np_where a \<noteq> [] \<Longrightarrow> np_any a"
proof -
  assume "np_where a \<noteq> []"
  then obtain i where "i \<in> set (np_where a)" by (cases "np_where a") auto
  then have "i < length a" "a ! i" by (simp_all add: np_where_set)
  then have "True \<in> set a" by (rule nth_True_mem)
  then show ?thesis by (simp add: np_any_iff)
qed

lemma footer_y_max_le: "footer_y_max rows H y_min y_max ratio \<le> y_max"
  by (simp add: footer_y_max_def Let_def)

lemma footer_y_max_ge: "y_min \<le> y_max \<Longrightarrow> y_min \<le> footer_y_max rows H y_min y_max ratio"
  by (simp add: footer_y_max_def Let_def)

lemma any_axis_lengths:
  "length (any_axis1 m) = length m" "length (any_axis0 m) = shape1 m"
  by (simp_all add: any_axis1_def any_axis0_def)

lemma content_mask_shape:
  "length (content_mask a th) = length a" "shape1 (content_mask a th) = shape1 a"
  by (simp_all add: content_mask_def shape1_def split: list.splits)

text \<open>
The detector's result when the page has content.
\<close>

lemma get_content_bbox_content:
  assumes "np_any (any_axis1 (content_mask (img_array pg) threshold))"
    and "np_any (any_axis0 (content_mask (img_array pg) threshold))"
  shows "get_content_bbox pg threshold ratio =
     Inr (fitz_Rect
       (x0 (rect pg) + real (hd (np_where (any_axis0 (content_mask (img_array pg) threshold)))) / 2)
       (y0 (rect pg) + real (hd (np_where (any_axis1 (content_mask (img_array pg) threshold)))) / 2)
       (x0 (rect pg) + real (last (np_where (any_axis0 (content_mask (img_array pg) threshold)))) / 2)
       (y0 (rect pg) +
          real (footer_y_max (any_axis1 (content_mask (img_array pg) threshold))
                  (length (img_array pg))
                  (hd (np_where (any_axis1 (content_mask (img_array pg) threshold))))
                  (last (np_where (any_axis1 (content_mask (img_array pg) threshold))))
                  ratio) / 2))"
  using assms
  by (simp add: get_content_bbox_def Let_def first_last_ok np_where_nonempty)

lemmas bbox_eval = get_content_bbox_def content_mask_def any_axis1_def any_axis0_def shape1_def
  np_any_def np_where_def first_last_def footer_y_max_def py_int_def slice_from_def Let_def fitz_Rect_def

text \<open>
  C1. On every rendered page, for every threshold and footer ratio, the detector returns a
  rectangle that lies inside the page rectangle: its left and top are not before the
  page's, its right and bottom not beyond them.
\<close>

theorem content_box_within_page:
  assumes "rendered pg"
  shows "\<exists>box. get_content_bbox pg threshold ratio = Inr box \<and> inside box (rect pg)"
proof -
  let ?m = "content_mask (img_array pg) threshold"
  let ?rows = "any_axis1 ?m" and ?cols = "any_axis0 ?m"
  show ?thesis
  proof (cases "np_any ?rows \<and> np_any ?cols")
    case False
    then have "get_content_bbox pg threshold ratio = Inr (rect pg)"
      by (auto simp: get_content_bbox_def Let_def)
    then show ?thesis
      using assms by (simp add: inside_def rendered_def)
  next
    case True
    then have r: "np_where ?rows \<noteq> []" and c: "np_where ?cols \<noteq> []"
      by (simp_all add: np_where_nonempty)
    define x_min where "x_min = hd (np_where ?cols)"
    define x_max where "x_max = last (np_where ?cols)"
    define y_min where "y_min = hd (np_where ?rows)"
    define y_max where "y_max = last (np_where ?rows)"
    define y_end where "y_end = footer_y_max ?rows (length (img_array pg)) y_min y_max ratio"
    have x: "x_min \<le> x_max" "x_max < shape1 (img_array pg)"
      using np_where_hd_le_last [OF c]
      by (simp_all add: x_min_def x_max_def any_axis_lengths content_mask_shape)
    have y: "y_min \<le> y_max" "y_max < length (img_array pg)"
      using np_where_hd_le_last [OF r]
      by (simp_all add: y_min_def y_max_def any_axis_lengths content_mask_shape)
    have ye: "y_min \<le> y_end" "y_end \<le> y_max"
      using y(1) by (simp_all add: y_end_def footer_y_max_le footer_y_max_ge)
    have xb: "real x_max / 2 \<le> x1 (rect pg) - x0 (rect pg)"
      using x(2) assms by (simp add: rendered_def)
    have yb: "real y_end / 2 \<le> y1 (rect pg) - y0 (rect pg)"
      using ye(2) y(2) assms by (simp add: rendered_def)
    have "get_content_bbox pg threshold ratio =
        Inr (fitz_Rect (x0 (rect pg) + real x_min / 2) (y0 (rect pg) + real y_min / 2)
                       (x0 (rect pg) + real x_max / 2) (y0 (rect pg) + real y_end / 2))"
      using True
      by (simp add: get_content_bbox_content x_min_def x_max_def y_min_def y_max_def y_end_def)
    moreover have "inside (fitz_Rect (x0 (rect pg) + real x_min / 2) (y0 (rect pg) + real y_min / 2)
                       (x0 (rect pg) + real x_max / 2) (y0 (rect pg) + real y_end / 2)) (rect pg)"
      using x(1) ye(1) xb yb by (simp add: inside_def fitz_Rect_def)
    ultimately show ?thesis by blast
  qed
qed

theorem content_box_within_page_witness:
  "get_content_bbox framed_page (95 / 100) (1 / 10) =
     Inr (fitz_Rect (1 / 2) (1 / 2) (3 / 2) (3 / 2)) \<and>
   inside (fitz_Rect (1 / 2) (1 / 2) (3 / 2) (3 / 2)) (rect framed_page)"
proof -
  have r: "rendered framed_page"
    by (simp add: rendered_def framed_page_def fitz_Rect_def shape1_def)
  have v: "get_content_bbox framed_page (95 / 100) (1 / 10) =
     Inr (fitz_Rect (1 / 2) (1 / 2) (3 / 2) (3 / 2))"
    by (simp add: framed_page_def bbox_eval)
  from content_box_within_page [OF r, of "95 / 100" "1 / 10"] v show ?thesis
    by simp
qed

subsection \<open>Footer isolation\<close>

lemma gap_threshold_iff:
  "py_int (real H * 0.02) < int a - int b \<longleftrightarrow> real H * 0.02 < real a - real b"
proof -
  have "py_int (real H * 0.02) = \<lfloor>real H * 0.02\<rfloor>"
    by (simp add: py_int_def)
  moreover have "\<lfloor>real H * 0.02\<rfloor> < int a - int b \<longleftrightarrow> real H * 0.02 < of_int (int a - int b)"
    by (rule floor_less_iff)
  ultimately show ?thesis by simp
qed

lemma scan_gaps_none:
  "(\<forall>j. 0 < j \<and> j \<le> k \<longrightarrow> \<not> (gt < int (cr ! j) - int (cr ! (j - 1)) \<and> fs < int (cr ! j)))
     \<Longrightarrow> scan_gaps cr gt fs k = None"
proof (induction k)
  case 0
  then show ?case by simp
next
  case (Suc k)
  from Suc.prems have "\<not> (gt < int (cr ! Suc k) - int (cr ! k) \<and> fs < int (cr ! Suc k))"
    by (metis diff_Suc_1 le_refl zero_less_Suc)
  moreover have "scan_gaps cr gt fs k = None"
    using Suc.prems by (intro Suc.IH) auto
  ultimately show ?case by (auto simp: Let_def)
qed

lemma scan_gaps_found:
  "0 < i \<Longrightarrow> i \<le> k \<Longrightarrow> gt < int (cr ! i) - int (cr ! (i - 1)) \<and> fs < int (cr ! i) \<Longrightarrow>
   (\<forall>j. i < j \<and> j \<le> k \<longrightarrow> \<not> (gt < int (cr ! j) - int (cr ! (j - 1)) \<and> fs < int (cr ! j)))
     \<Longrightarrow> scan_gaps cr gt fs k = Some (cr ! (i - 1))"
proof (induction k)
  case 0
  then show ?case by simp
next
  case (Suc k)
  show ?case
  proof (cases "i = Suc k")
    case True
    with Suc.prems(3) show ?thesis by (simp add: Let_def)
  next
    case False
    with Suc.prems(2) have ik: "i \<le> k" "i < Suc k" by simp_all
    from Suc.prems(4) ik(2)
    have "\<not> (gt < int (cr ! Suc k) - int (cr ! k) \<and> fs < int (cr ! Suc k))"
      by (metis diff_Suc_1 le_refl)
    moreover have "scan_gaps cr gt fs k = Some (cr ! (i - 1))"
      using Suc.prems ik by (intro Suc.IH) auto
    ultimately show ?thesis by (auto simp: Let_def)
  qed
qed

lemma band_iff:
  assumes "0 \<le> fs"
  shows "np_any (slice_from rows fs) \<longleftrightarrow> (\<exists>y \<in> set (np_where rows). fs \<le> int y)"
proof -
  have "np_any (drop (nat fs) rows) \<longleftrightarrow> (\<exists>y. y < length rows \<and> rows ! y \<and> nat fs \<le> y)"
  proof
    assume "np_any (drop (nat fs) rows)"
    then obtain k where k: "k < length (drop (nat fs) rows)" "drop (nat fs) rows ! k"
      by (auto simp: np_any_iff in_set_conv_nth)
    then have "nat fs + k < length rows" "rows ! (nat fs + k)" by simp_all
    then show "\<exists>y. y < length rows \<and> rows ! y \<and> nat fs \<le> y"
      by (intro exI [of _ "nat fs + k"]) simp
  next
    assume "\<exists>y. y < length rows \<and> rows ! y \<and> nat fs \<le> y"
    then obtain y where y: "y < length rows" "rows ! y" "nat fs \<le> y" by blast
    then have "y - nat fs < length (drop (nat fs) rows)" "drop (nat fs) rows ! (y - nat fs)"
      by simp_all
    then have "True \<in> set (drop (nat fs) rows)"
      by (rule nth_True_mem)
    then show "np_any (drop (nat fs) rows)" by (simp add: np_any_iff)
  qed
  moreover have "\<And>y. nat fs \<le> y \<longleftrightarrow> fs \<le> int y"
    using assms by linarith
  ultimately show ?thesis
    using assms by (auto simp: slice_from_def np_where_set)
qed

lemma rectangular_cols:
  assumes rect: "\<forall>row \<in> set m. length row = shape1 m"
    and rows: "np_any (any_axis1 m)"
  shows "np_any (any_axis0 m)"
proof -
  from rows obtain row where row: "row \<in> set m" "True \<in> set row"
    by (auto simp: np_any_iff any_axis1_def)
  then obtain j where j: "j < length row" "row ! j"
    by (auto simp: in_set_conv_nth)
  with rect row(1) have "j < shape1 m" by auto
  moreover have "list_ex (\<lambda>row. row ! j) m"
    using row(1) j(2) by (auto simp: list_ex_iff)
  ultimately have "True \<in> set (any_axis0 m)"
    by (force simp: any_axis0_def)
  then show ?thesis by (simp add: np_any_iff)
qed

lemma footer_y_max_unfold:
  "footer_y_max rows H y_min y_max ratio =
     (if np_any (slice_from rows (py_int (real H * (1 - ratio)))) then
        (case scan_gaps (np_where rows) (py_int (real H * 0.02))
                (py_int (real H * (1 - ratio))) (length (np_where rows) - 1) of
           Some e \<Rightarrow> if e < y_max \<and> y_min < e then e else y_max
         | None \<Rightarrow> y_max)
      else y_max)"
  by (simp add: footer_y_max_def Let_def split: option.splits)

lemma footer_y_max_found:
  assumes cr: "cr = np_where rows"
    and fs: "fs = py_int (real (length rows) * (1 - ratio))" "0 \<le> fs"
    and band: "\<exists>y \<in> set cr. fs \<le> int y"
    and gap: "footer_gap cr (length rows) fs i"
    and last: "\<forall>j>i. \<not> footer_gap cr (length rows) fs j"
  shows "footer_y_max rows (length rows) (hd cr) (last cr) ratio =
           (if hd cr < cr ! (i - 1) then cr ! (i - 1) else last cr)"
proof -
  define gt where "gt = py_int (real (length rows) * 0.02)"
  from gap have i: "0 < i" "i < length cr"
    and "real (length rows) * 0.02 < real (cr ! i) - real (cr ! (i - 1))"
    and "fs < int (cr ! i)"
    unfolding footer_gap_def wide_gap_def by blast+
  then have gi: "gt < int (cr ! i) - int (cr ! (i - 1)) \<and> fs < int (cr ! i)"
    unfolding gt_def gap_threshold_iff by blast
  have later: "\<forall>j. i < j \<and> j \<le> length cr - 1 \<longrightarrow>
      \<not> (gt < int (cr ! j) - int (cr ! (j - 1)) \<and> fs < int (cr ! j))"
  proof (intro allI impI)
    fix j assume j: "i < j \<and> j \<le> length cr - 1"
    with last i have "\<not> footer_gap cr (length rows) fs j" by blast
    moreover have "0 < j" "j < length cr" using j i by arith+
    ultimately show "\<not> (gt < int (cr ! j) - int (cr ! (j - 1)) \<and> fs < int (cr ! j))"
      unfolding footer_gap_def wide_gap_def gt_def gap_threshold_iff by blast
  qed
  have scan: "scan_gaps cr gt fs (length cr - 1) = Some (cr ! (i - 1))"
    using i gi later by (intro scan_gaps_found) simp_all
  have "cr ! (i - 1) < cr ! (length cr - 1)"
    unfolding cr using i by (intro np_where_nth_less) (simp_all add: cr [symmetric])
  moreover have "cr \<noteq> []" using i by auto
  ultimately have below: "cr ! (i - 1) < last cr"
    by (simp add: last_conv_nth)
  have b: "np_any (slice_from rows fs)"
    using band band_iff [OF fs(2)] cr by simp
  show ?thesis
    unfolding footer_y_max_unfold cr [symmetric] fs(1) [symmetric] gt_def [symmetric]
    using b scan below by simp
qed

lemma footer_y_max_no_gap:
  assumes cr: "cr = np_where rows"
    and fs: "fs = py_int (real (length rows) * (1 - ratio))"
    and none: "\<forall>i. \<not> band_gap cr (length rows) fs i"
  shows "footer_y_max rows (length rows) y_min (last cr) ratio = last cr"
proof -
  define gt where "gt = py_int (real (length rows) * 0.02)"
  have "\<forall>j. 0 < j \<and> j \<le> length cr - 1 \<longrightarrow>
      \<not> (gt < int (cr ! j) - int (cr ! (j - 1)) \<and> fs < int (cr ! j))"
  proof (intro allI impI)
    fix j assume j: "0 < j \<and> j \<le> length cr - 1"
    then have "0 < j" "j < length cr" by arith+
    moreover from none have "\<not> band_gap cr (length rows) fs j" by blast
    ultimately show "\<not> (gt < int (cr ! j) - int (cr ! (j - 1)) \<and> fs < int (cr ! j))"
      unfolding band_gap_def wide_gap_def gt_def gap_threshold_iff by auto
  qed
  then have "scan_gaps cr gt fs (length cr - 1) = None"
    by (rule scan_gaps_none)
  then show ?thesis
    unfolding footer_y_max_unfold cr [symmetric] fs [symmetric] gt_def [symmetric]
    by simp
qed

lemma body_and_footer_rows:
  "np_where (any_axis1 (content_mask (img_array body_and_footer) (95 / 100))) = [1, 2, 3, 8]"
  by (simp add: body_and_footer_def content_mask_def any_axis1_def np_any_def np_where_def)

text \<open>
  C2, as amended. The pixel grid is rectangular and the footer ratio is between 0 and 1.
  When the footer band holds a content row, the detector returns a box whose top is the
  first content row, and:
  \<^item> if \<open>i\<close> is the first footer gap met from the bottom (no footer gap has a greater
    index), the box ends at the row before that gap, \<open>cr ! (i - 1)\<close>, provided this row is
    strictly below the first content row; if it is the first content row itself, the box
    ends at the last content row, unchanged;
  \<^item> if there is no band gap at all, the box ends at the last content row, unchanged.
  A wide gap whose later row is exactly the first row of the band is in neither case.
\<close>

theorem footer_isolation:
  assumes grid: "\<forall>row \<in> set (img_array pg). length row = shape1 (img_array pg)"
    and ratio: "0 \<le> ratio" "ratio \<le> 1"
    and cr: "cr = np_where (any_axis1 (content_mask (img_array pg) threshold))"
    and H: "H = length (img_array pg)"
    and fs: "fs = py_int (real H * (1 - ratio))"
    and band: "\<exists>y \<in> set cr. fs \<le> int y"
  shows "\<exists>box. get_content_bbox pg threshold ratio = Inr box \<and>
           y0 box = y0 (rect pg) + real (hd cr) / 2 \<and>
           (\<forall>i. footer_gap cr H fs i \<and> (\<forall>j>i. \<not> footer_gap cr H fs j) \<longrightarrow>
                y1 box = y0 (rect pg) +
                  real (if hd cr < cr ! (i - 1) then cr ! (i - 1) else last cr) / 2) \<and>
           ((\<forall>i. \<not> band_gap cr H fs i) \<longrightarrow> y1 box = y0 (rect pg) + real (last cr) / 2)"
proof -
  let ?m = "content_mask (img_array pg) threshold"
  let ?rows = "any_axis1 ?m"
  have len: "length ?rows = H"
    by (simp add: H any_axis_lengths content_mask_shape)
  have "cr \<noteq> []" using band by auto
  then have rows: "np_any ?rows"
    unfolding cr by (rule np_where_any)
  have "\<forall>row \<in> set ?m. length row = shape1 ?m"
    using grid by (auto simp: content_mask_shape(2)) (auto simp: content_mask_def)
  then have cols: "np_any (any_axis0 ?m)"
    using rows by (rule rectangular_cols)
  have fs0: "0 \<le> fs"
    using ratio by (simp add: fs py_int_def)
  have fs': "fs = py_int (real (length ?rows) * (1 - ratio))"
    by (simp add: fs len)
  define box where "box = fitz_Rect
       (x0 (rect pg) + real (hd (np_where (any_axis0 ?m))) / 2)
       (y0 (rect pg) + real (hd cr) / 2)
       (x0 (rect pg) + real (last (np_where (any_axis0 ?m))) / 2)
       (y0 (rect pg) + real (footer_y_max ?rows H (hd cr) (last cr) ratio) / 2)"
  have res: "get_content_bbox pg threshold ratio = Inr box"
    using get_content_bbox_content [OF rows cols, of ratio]
    by (simp add: box_def cr H)
  have top: "y0 box = y0 (rect pg) + real (hd cr) / 2"
    and bot: "y1 box = y0 (rect pg) + real (footer_y_max ?rows H (hd cr) (last cr) ratio) / 2"
    by (simp_all add: box_def fitz_Rect_def)
  have found: "y1 box = y0 (rect pg) +
                  real (if hd cr < cr ! (i - 1) then cr ! (i - 1) else last cr) / 2"
    if "footer_gap cr H fs i \<and> (\<forall>j>i. \<not> footer_gap cr H fs j)" for i
    using footer_y_max_found [OF cr fs' fs0 band, of i] that
    by (simp add: bot len)
  have none: "y1 box = y0 (rect pg) + real (last cr) / 2"
    if "\<forall>i. \<not> band_gap cr H fs i"
    using footer_y_max_no_gap [OF cr fs', of "hd cr"] that
    by (simp add: bot len)
  show ?thesis
    using res top found none by blast
qed

theorem footer_isolation_witness:
  "get_content_bbox body_and_footer (95 / 100) (1 / 2) = Inr (fitz_Rect 0 (1 / 2) 0 (3 / 2))"
proof -
  let ?cr = "[1, 2, 3, 8] :: nat list"
  have grid: "\<forall>row \<in> set (img_array body_and_footer).
      length row = shape1 (img_array body_and_footer)"
    by (simp add: body_and_footer_def shape1_def)
  have ratio: "(0::real) \<le> 1 / 2" "(1 / 2 :: real) \<le> 1" by simp_all
  have cr: "?cr = np_where (any_axis1 (content_mask (img_array body_and_footer) (95 / 100)))"
    by (rule body_and_footer_rows [symmetric])
  have H: "10 = length (img_array body_and_footer)"
    by (simp add: body_and_footer_def)
  have fs: "5 = py_int (real 10 * (1 - 1 / 2))"
    by (simp add: py_int_def)
  have band: "\<exists>y \<in> set ?cr. 5 \<le> int y" by simp
  have gap: "footer_gap ?cr 10 5 3 \<and> (\<forall>j>3. \<not> footer_gap ?cr 10 5 j)"
    by (simp add: footer_gap_def wide_gap_def)
  have v: "get_content_bbox body_and_footer (95 / 100) (1 / 2) =
      Inr (fitz_Rect 0 (1 / 2) 0 (3 / 2))"
    by (simp add: body_and_footer_def bbox_eval)
  from footer_isolation [OF grid ratio cr H fs band] gap v show ?thesis
    by simp
qed

text \<open>
  C2 as the specification states it fails on the page with one line on row 2 and a mark
  on row 9, with 10 rows and a footer ratio of one half: the band starts at row 5, the gap
  from row 2 to row 9 is wide and its later row is in the band, and row 2 is not above the
  top content row, so the stated rule ends the content at row 2; the detector keeps the
  end at row 9 (bottom coordinate 9/2).
\<close>

theorem footer_isolation_counterexample:
  "np_where (any_axis1 (content_mask (img_array line_and_footer) (95 / 100))) = [2, 9] \<and>
   py_int (real (length (img_array line_and_footer)) * (1 - 1 / 2)) = 5 \<and>
   claimed_footer_end [2, 9] 10 5 = 2 \<and>
   get_content_bbox line_and_footer (95 / 100) (1 / 2) = Inr (fitz_Rect 0 1 0 (9 / 2))"
  by (simp add: line_and_footer_def bbox_eval claimed_footer_end_def)

section \<open>Properties of the margin aggregator\<close>

lemma range_step_bound:
  assumes "0 < step" "i \<in> set (range_step n step)"
  shows "i < n"
proof -
  from assms(2) obtain k where k: "k < (n + step - 1) div step" "i = k * step"
    by (auto simp: range_step_def)
  then have "Suc k \<le> (n + step - 1) div step" by simp
  then have "Suc k * step \<le> n + step - 1"
    using assms(1) by (simp add: less_eq_div_iff_mult_less_eq)
  then show ?thesis using k(2) assms(1) by simp
qed

lemma range_step_nonempty:
  assumes "0 < step" "0 < n"
  shows "range_step n step \<noteq> []"
proof -
  have "step \<le> n + step - 1" using assms by simp
  then have "1 \<le> (n + step - 1) div step"
    using assms(1) by (simp add: less_eq_div_iff_mult_less_eq)
  then show ?thesis by (simp add: range_step_def)
qed

lemma sample_indices_ok:
  assumes "0 < sample_pages"
  shows "\<exists>ix. sample_indices n sample_pages = Inr ix \<and> (\<forall>i \<in> set ix. i < n) \<and>
            (0 < n \<longrightarrow> ix \<noteq> [])"
proof (cases "int n \<le> sample_pages")
  case True
  then show ?thesis by (simp add: sample_indices_def)
next
  case False
  define step where "step = int n div sample_pages"
  from False assms have "sample_pages \<le> int n" "0 < int n" by simp_all
  then have step: "0 < step"
    using assms by (simp add: step_def pos_imp_zdiv_pos_iff)
  have n: "0 < n" using \<open>0 < int n\<close> by simp
  have eq: "sample_indices n sample_pages =
      Inr (take (nat sample_pages) (range_step n (nat step)))"
    using False assms step by (simp add: sample_indices_def step_def Let_def)
  have "\<forall>i \<in> set (take (nat sample_pages) (range_step n (nat step))). i < n"
    using step by (auto dest!: in_set_takeD intro: range_step_bound [of "nat step"])
  moreover have "take (nat sample_pages) (range_step n (nat step)) \<noteq> []"
    using range_step_nonempty [of "nat step" n] step n assms by simp
  ultimately show ?thesis using eq by simp
qed

lemma collect_boxes_ok:
  "\<exists>cbs. collect_boxes d ratio ix = Inr (cbs, map (\<lambda>i. rect (d ! i)) ix) \<and>
      length cbs = length ix"
proof (induction ix)
  case Nil
  then show ?case by simp
next
  case (Cons i rest)
  obtain bx where bx: "get_content_bbox (d ! i) 0.95 ratio = Inr bx"
    using get_content_bbox_total by blast
  from Cons.IH obtain cbs where
    "collect_boxes d ratio rest = Inr (cbs, map (\<lambda>i. rect (d ! i)) rest)"
    "length cbs = length rest"
    by blast
  with bx show ?case by simp
qed

text \<open>
The four margin lists that the loop builds.
\<close>

lemma margin_lists_append:
  assumes "\<forall>(cb, pr) \<in> set samples. width pr \<noteq> 0 \<and> height pr \<noteq> 0"
  shows "margin_lists samples (ls, ts, rs, bs) =
     Inr (ls @ map (\<lambda>(cb, pr). max 0 ((x0 cb - x0 pr) / width pr)) samples,
          ts @ map (\<lambda>(cb, pr). max 0 ((y0 cb - y0 pr) / height pr)) samples,
          rs @ map (\<lambda>(cb, pr). max 0 ((x1 pr - x1 cb) / width pr)) samples,
          bs @ map (\<lambda>(cb, pr). max 0 ((y1 pr - y1 cb) / height pr)) samples)"
  using assms
proof (induction samples arbitrary: ls ts rs bs)
  case Nil
  then show ?case by simp
next
  case (Cons s rest)
  obtain cb pr where s: "s = (cb, pr)" by (cases s)
  from Cons.prems s have nz: "width pr \<noteq> 0" "height pr \<noteq> 0"
    and rest: "\<forall>(cb, pr) \<in> set rest. width pr \<noteq> 0 \<and> height pr \<noteq> 0"
    by simp_all
  show ?case
    using nz by (simp add: s py_div_def Cons.IH [OF rest])
qed

lemma np_percentile_25:
  assumes "xs \<noteq> []"
  shows "np_percentile xs 25 = Inr (percentile_25 xs)"
proof -
  define n where "n = length xs"
  define h where "h = real (n - 1) / 4"
  have n: "0 < n" using assms by (simp add: n_def)
  have h0: "0 \<le> h" by (simp add: h_def)
  have vi: "real (n - 1) * (25 / 100) = h" by (simp add: h_def)
  have fl: "real (nat \<lfloor>h\<rfloor>) = of_int \<lfloor>h\<rfloor>" using h0 by simp
  have eq: "np_percentile xs 25 =
      Inr (sort xs ! nat \<lfloor>h\<rfloor> +
           (sort xs ! min (nat \<lfloor>h\<rfloor> + 1) (n - 1) - sort xs ! nat \<lfloor>h\<rfloor>) * (h - of_int \<lfloor>h\<rfloor>))"
    using assms fl by (simp add: np_percentile_def Let_def n_def h_def)
  have spec: "percentile_25 xs =
      sort xs ! nat \<lfloor>h\<rfloor> + (h - of_int \<lfloor>h\<rfloor>) * (sort xs ! nat \<lceil>h\<rceil> - sort xs ! nat \<lfloor>h\<rfloor>)"
    by (simp add: percentile_25_def Let_def n_def h_def)
  have mid: "(sort xs ! min (nat \<lfloor>h\<rfloor> + 1) (n - 1) - sort xs ! nat \<lfloor>h\<rfloor>) * (h - of_int \<lfloor>h\<rfloor>) =
        (h - of_int \<lfloor>h\<rfloor>) * (sort xs ! nat \<lceil>h\<rceil> - sort xs ! nat \<lfloor>h\<rfloor>)"
  proof (cases "h = of_int \<lfloor>h\<rfloor>")
    case True
    then show ?thesis by simp
  next
    case False
    then have c: "\<lceil>h\<rceil> = \<lfloor>h\<rfloor> + 1"
      by (metis ceiling_altdef)
    have "h < real (n - 1)"
    proof (rule ccontr)
      assume "\<not> h < real (n - 1)"
      then have "real (n - 1) \<le> 0" by (simp add: h_def)
      then have "h = 0" by (simp add: h_def)
      with False show False by simp
    qed
    then have "\<lfloor>h\<rfloor> < int (n - 1)"
      by (metis floor_less_iff of_int_of_nat_eq)
    then have "nat \<lfloor>h\<rfloor> + 1 \<le> n - 1" using h0 by linarith
    then have "min (nat \<lfloor>h\<rfloor> + 1) (n - 1) = nat \<lceil>h\<rceil>"
      using c h0 by (simp add: nat_add_distrib)
    then show ?thesis by simp
  qed
  show ?thesis
    by (simp only: eq spec mid)
qed

lemma np_percentile_25_bounds:
  assumes ne: "xs \<noteq> []" and lo: "\<forall>x \<in> set xs. lo \<le> x" and hi: "\<forall>x \<in> set xs. x \<le> hi"
  shows "\<exists>p. np_percentile xs 25 = Inr p \<and> lo \<le> p \<and> p \<le> hi"
proof -
  define n where "n = length xs"
  define vi where "vi = real (n - 1) * (25 / 100)"
  define i where "i = nat \<lfloor>vi\<rfloor>"
  define j where "j = min (i + 1) (n - 1)"
  define g where "g = vi - real i"
  have n: "0 < n" using ne by (simp add: n_def)
  have vi0: "0 \<le> vi" by (simp add: vi_def)
  have "vi \<le> real (n - 1)" by (simp add: vi_def)
  then have "\<lfloor>vi\<rfloor> \<le> int (n - 1)"
    by (metis floor_mono floor_of_nat)
  then have i: "i < n" using n by (simp add: i_def)
  have j: "j < n" using n by (simp add: j_def)
  have g: "0 \<le> g" "g \<le> 1"
    using vi0 by (simp_all add: g_def i_def) linarith+
  have "sort xs ! i \<in> set xs" "sort xs ! j \<in> set xs"
    using i j by (metis length_sort n_def nth_mem set_sort)+
  then have a: "lo \<le> sort xs ! i" "sort xs ! i \<le> hi"
    and b: "lo \<le> sort xs ! j" "sort xs ! j \<le> hi"
    using lo hi by blast+
  define p where "p = sort xs ! i + (sort xs ! j - sort xs ! i) * g"
  have conv: "p = (1 - g) * sort xs ! i + g * sort xs ! j"
    by (simp add: p_def algebra_simps)
  have "(1 - g) * lo + g * lo \<le> p"
    unfolding conv using a(1) b(1) g by (intro add_mono mult_left_mono) simp_all
  then have plo: "lo \<le> p" by (simp add: algebra_simps)
  have "p \<le> (1 - g) * hi + g * hi"
    unfolding conv using a(2) b(2) g by (intro add_mono mult_left_mono) simp_all
  then have phi: "p \<le> hi" by (simp add: algebra_simps)
  have "np_percentile xs 25 = Inr p"
    using ne
    by (simp add: np_percentile_def Let_def p_def g_def j_def i_def vi_def n_def)
  with plo phi show ?thesis by blast
qed

lemma suggested_25:
  "ms \<noteq> [] \<Longrightarrow> suggested ms buffer = Inr (max 0 (percentile_25 ms - buffer))"
  by (simp add: suggested_def np_percentile_25)

lemma suggest_margins_eq:
  assumes ne: "samples \<noteq> []"
    and nz: "\<forall>(cb, pr) \<in> set samples. width pr \<noteq> 0 \<and> height pr \<noteq> 0"
  shows "suggest_margins (map fst samples) (map snd samples) buffer =
     Inr (max 0 (percentile_25 (map (\<lambda>(cb, pr). max 0 ((x0 cb - x0 pr) / width pr)) samples) - buffer),
          max 0 (percentile_25 (map (\<lambda>(cb, pr). max 0 ((y0 cb - y0 pr) / height pr)) samples) - buffer),
          max 0 (percentile_25 (map (\<lambda>(cb, pr). max 0 ((x1 pr - x1 cb) / width pr)) samples) - buffer),
          max 0 (percentile_25 (map (\<lambda>(cb, pr). max 0 ((y1 pr - y1 cb) / height pr)) samples) - buffer))"
proof -
  have z: "zip (map fst samples) (map snd samples) = samples"
    by (simp add: zip_map_fst_snd)
  show ?thesis
    using ne by (simp add: suggest_margins_def z margin_lists_append [OF nz] suggested_25)
qed

lemmas agg_eval = analyze_pdf_margins_def sample_indices_def suggest_margins_def suggested_def
  np_percentile_def py_div_def width_def height_def

text \<open>
  C3. For a non-empty list of samples whose page rectangles have positive width and
  height, the aggregator returns, for each edge on its own, the 25th percentile of the raw
  margin fractions clamped at 0, less the buffer, clamped at 0.
\<close>

theorem aggregator_is_clamped_percentile:
  assumes ne: "samples \<noteq> []"
    and pos: "\<forall>(box, pg) \<in> set samples. x0 pg < x1 pg \<and> y0 pg < y1 pg"
  shows "suggest_margins (map fst samples) (map snd samples) buffer =
           Inr (aggregate samples buffer)"
proof -
  have wh: "\<forall>(box, pg) \<in> set samples. width pg = x1 pg - x0 pg \<and> height pg = y1 pg - y0 pg"
    using pos by (auto simp: width_def height_def)
  then have nz: "\<forall>(cb, pr) \<in> set samples. width pr \<noteq> 0 \<and> height pr \<noteq> 0"
    using pos by fastforce
  have l: "map (\<lambda>(cb, pr). max 0 ((x0 cb - x0 pr) / width pr)) samples =
           map (\<lambda>(box, pg). max 0 (raw_left box pg)) samples"
    and t: "map (\<lambda>(cb, pr). max 0 ((y0 cb - y0 pr) / height pr)) samples =
           map (\<lambda>(box, pg). max 0 (raw_top box pg)) samples"
    and r: "map (\<lambda>(cb, pr). max 0 ((x1 pr - x1 cb) / width pr)) samples =
           map (\<lambda>(box, pg). max 0 (raw_right box pg)) samples"
    and b: "map (\<lambda>(cb, pr). max 0 ((y1 pr - y1 cb) / height pr)) samples =
           map (\<lambda>(box, pg). max 0 (raw_bottom box pg)) samples"
    using wh by (auto simp: raw_left_def raw_top_def raw_right_def raw_bottom_def)
  show ?thesis
    unfolding suggest_margins_eq [OF ne nz] l t r b aggregate_def ..
qed

theorem aggregator_is_clamped_percentile_witness:
  "suggest_margins [fitz_Rect 10 20 80 90, fitz_Rect 30 10 90 70]
     [fitz_Rect 0 0 100 100, fitz_Rect 0 0 100 100] (1 / 100) =
   Inr (7 / 50, 23 / 200, 23 / 200, 7 / 50)"
proof -
  let ?samples = "[(fitz_Rect 10 20 80 90, fitz_Rect 0 0 100 100),
                   (fitz_Rect 30 10 90 70, fitz_Rect 0 0 100 100)]"
  have ne: "?samples \<noteq> []" by simp
  have pos: "\<forall>(box, pg) \<in> set ?samples. x0 pg < x1 pg \<and> y0 pg < y1 pg"
    by (simp add: fitz_Rect_def)
  have "aggregate ?samples (1 / 100) = (7 / 50, 23 / 200, 23 / 200, 7 / 50)"
    by (simp add: aggregate_def percentile_25_def raw_left_def raw_top_def raw_right_def
        raw_bottom_def fitz_Rect_def Let_def)
  then show ?thesis
    using aggregator_is_clamped_percentile [OF ne pos, of "1 / 100"] by simp
qed

lemma suggested_bounds:
  assumes ne: "ms \<noteq> []" and lo: "\<forall>x \<in> set ms. 0 \<le> x" and hi: "\<forall>x \<in> set ms. x \<le> 1"
    and buf: "0 \<le> buffer"
  shows "\<exists>v. suggested ms buffer = Inr v \<and> 0 \<le> v \<and> v \<le> 1 \<and> (0 < buffer \<longrightarrow> v < 1)"
proof -
  from np_percentile_25_bounds [OF ne lo hi] obtain p where
    p: "np_percentile ms 25 = Inr p" "0 \<le> p" "p \<le> 1"
    by blast
  then have "suggested ms buffer = Inr (max 0 (p - buffer))"
    by (simp add: suggested_def)
  moreover have "0 \<le> max 0 (p - buffer)" "max 0 (p - buffer) \<le> 1"
    "0 < buffer \<longrightarrow> max 0 (p - buffer) < 1"
    using p(2,3) buf by auto
  ultimately show ?thesis by blast
qed

text \<open>
  C9, as amended. For a non-empty list of samples in which every content box lies inside
  its page rectangle, and the page rectangle has positive width and height, and for a
  buffer that is not negative, each of the four margins is between 0 and 1, both included;
  it is below 1 when the buffer is positive.
\<close>

theorem suggested_margins_bounds:
  assumes ne: "samples \<noteq> []"
    and buf: "0 \<le> buffer"
    and ok: "\<forall>(box, pg) \<in> set samples. x0 pg < x1 pg \<and> y0 pg < y1 pg \<and> inside box pg"
  shows "\<exists>l t r b. suggest_margins (map fst samples) (map snd samples) buffer = Inr (l, t, r, b) \<and>
           0 \<le> l \<and> l \<le> 1 \<and> 0 \<le> t \<and> t \<le> 1 \<and> 0 \<le> r \<and> r \<le> 1 \<and> 0 \<le> b \<and> b \<le> 1 \<and>
           (0 < buffer \<longrightarrow> l < 1 \<and> t < 1 \<and> r < 1 \<and> b < 1)"
proof -
  have nz: "\<forall>(cb, pr) \<in> set samples. width pr \<noteq> 0 \<and> height pr \<noteq> 0"
    using ok by (fastforce simp: width_def height_def)
  define ls where "ls = map (\<lambda>(cb, pr). max 0 ((x0 cb - x0 pr) / width pr)) samples"
  define ts where "ts = map (\<lambda>(cb, pr). max 0 ((y0 cb - y0 pr) / height pr)) samples"
  define rs where "rs = map (\<lambda>(cb, pr). max 0 ((x1 pr - x1 cb) / width pr)) samples"
  define bs where "bs = map (\<lambda>(cb, pr). max 0 ((y1 pr - y1 cb) / height pr)) samples"
  have lists: "margin_lists (zip (map fst samples) (map snd samples)) ([], [], [], []) =
              Inr (ls, ts, rs, bs)"
    using margin_lists_append [OF nz, of "[]" "[]" "[]" "[]"]
    by (simp add: zip_map_fst_snd ls_def ts_def rs_def bs_def)
  have nes: "ls \<noteq> []" "ts \<noteq> []" "rs \<noteq> []" "bs \<noteq> []"
    using ne by (simp_all add: ls_def ts_def rs_def bs_def)
  have lo: "\<forall>x \<in> set ls. 0 \<le> x" "\<forall>x \<in> set ts. 0 \<le> x"
    "\<forall>x \<in> set rs. 0 \<le> x" "\<forall>x \<in> set bs. 0 \<le> x"
    by (auto simp: ls_def ts_def rs_def bs_def)
  have frac: "\<And>a w::real. 0 < w \<Longrightarrow> a \<le> w \<Longrightarrow> max 0 (a / w) \<le> 1"
    by simp
  have hi: "\<forall>x \<in> set ls. x \<le> 1" "\<forall>x \<in> set ts. x \<le> 1"
    "\<forall>x \<in> set rs. x \<le> 1" "\<forall>x \<in> set bs. x \<le> 1"
    using ok
    by (auto simp: ls_def ts_def rs_def bs_def inside_def width_def height_def intro!: frac)
  from suggested_bounds [OF nes(1) lo(1) hi(1) buf] obtain l where
    l: "suggested ls buffer = Inr l" "0 \<le> l" "l \<le> 1" "0 < buffer \<longrightarrow> l < 1" by blast
  from suggested_bounds [OF nes(2) lo(2) hi(2) buf] obtain t where
    t: "suggested ts buffer = Inr t" "0 \<le> t" "t \<le> 1" "0 < buffer \<longrightarrow> t < 1" by blast
  from suggested_bounds [OF nes(3) lo(3) hi(3) buf] obtain r where
    r: "suggested rs buffer = Inr r" "0 \<le> r" "r \<le> 1" "0 < buffer \<longrightarrow> r < 1" by blast
  from suggested_bounds [OF nes(4) lo(4) hi(4) buf] obtain b where
    b: "suggested bs buffer = Inr b" "0 \<le> b" "b \<le> 1" "0 < buffer \<longrightarrow> b < 1" by blast
  have "suggest_margins (map fst samples) (map snd samples) buffer = Inr (l, t, r, b)"
    by (simp add: suggest_margins_def lists l(1) t(1) r(1) b(1))
  with l t r b show ?thesis by blast
qed

theorem suggested_margins_bounds_witness:
  "suggest_margins [fitz_Rect 10 20 80 90, fitz_Rect 30 10 90 70]
     [fitz_Rect 0 0 100 100, fitz_Rect 0 0 100 100] (1 / 100) =
     Inr (7 / 50, 23 / 200, 23 / 200, 7 / 50) \<and>
   (7 / 50 :: real) < 1 \<and> (23 / 200 :: real) < 1"
proof -
  let ?samples = "[(fitz_Rect 10 20 80 90, fitz_Rect 0 0 100 100),
                   (fitz_Rect 30 10 90 70, fitz_Rect 0 0 100 100)]"
  have ne: "?samples \<noteq> []" by simp
  have buf: "(0::real) \<le> 1 / 100" by simp
  have ok: "\<forall>(box, pg) \<in> set ?samples. x0 pg < x1 pg \<and> y0 pg < y1 pg \<and> inside box pg"
    by (simp add: fitz_Rect_def inside_def)
  have val: "suggest_margins [fitz_Rect 10 20 80 90, fitz_Rect 30 10 90 70]
     [fitz_Rect 0 0 100 100, fitz_Rect 0 0 100 100] (1 / 100) =
     Inr (7 / 50, 23 / 200, 23 / 200, 7 / 50)"
    by (simp add: suggest_margins_def suggested_def np_percentile_def py_div_def width_def
        height_def fitz_Rect_def Let_def)
  show ?thesis
    using suggested_margins_bounds [OF ne buf ok] val by simp
qed

text \<open>
  C9 as the specification states it fails for the buffer 0, which the command line
  accepts: on the one-page document whose only dark pixel is in the top left corner, the
  content box is the corner point, and the right and bottom margins are exactly 1.
\<close>

theorem margin_equal_to_one_counterexample:
  "get_content_bbox corner_page (95 / 100) (1 / 10) = Inr (fitz_Rect 0 0 0 0) \<and>
   analyze_pdf_margins [corner_page] 99999999 0 (1 / 10) = Inr (0, 0, 1, 1)"
proof -
  have box: "get_content_bbox corner_page (95 / 100) (1 / 10) = Inr (fitz_Rect 0 0 0 0)"
    by (simp add: corner_page_def bbox_eval)
  have "rect corner_page = fitz_Rect 0 0 1 1"
    by (simp add: corner_page_def)
  with box show ?thesis
    by (simp add: agg_eval fitz_Rect_def)
qed

lemma analyze_pdf_margins_ok:
  assumes ne: "d \<noteq> []"
    and nz: "\<forall>pg \<in> set d. width (rect pg) \<noteq> 0 \<and> height (rect pg) \<noteq> 0"
    and sp: "0 < sample_pages"
  shows "\<exists>m. analyze_pdf_margins d sample_pages buffer ratio = Inr m"
proof -
  from sample_indices_ok [OF sp, of "length d"] ne obtain ix where
    ix: "sample_indices (length d) sample_pages = Inr ix"
    and lt: "\<forall>i \<in> set ix. i < length d" and ixne: "ix \<noteq> []"
    by auto
  from collect_boxes_ok [of d ratio ix] obtain cbs where
    cb: "collect_boxes d ratio ix = Inr (cbs, map (\<lambda>i. rect (d ! i)) ix)"
    and len: "length cbs = length ix"
    by blast
  define samples where "samples = zip cbs (map (\<lambda>i. rect (d ! i)) ix)"
  have fs: "map fst samples = cbs" "map snd samples = map (\<lambda>i. rect (d ! i)) ix"
    using len by (simp_all add: samples_def)
  have sne: "samples \<noteq> []"
    using ixne len by (cases cbs; cases ix) (simp_all add: samples_def)
  have snz: "\<forall>(cb, pr) \<in> set samples. width pr \<noteq> 0 \<and> height pr \<noteq> 0"
  proof (clarify)
    fix cb pr assume "(cb, pr) \<in> set samples"
    then have "pr \<in> set (map (\<lambda>i. rect (d ! i)) ix)"
      unfolding samples_def by (rule set_zip_rightD)
    then obtain i where "i \<in> set ix" "pr = rect (d ! i)" by auto
    with lt have "d ! i \<in> set d" "pr = rect (d ! i)" by simp_all
    with nz show "width pr \<noteq> 0 \<and> height pr \<noteq> 0" by blast
  qed
  from suggest_margins_eq [OF sne snz, of buffer]
  obtain m where "suggest_margins cbs (map (\<lambda>i. rect (d ! i)) ix) buffer = Inr m"
    unfolding fs by blast
  then have "analyze_pdf_margins d sample_pages buffer ratio = Inr m"
    by (simp add: analyze_pdf_margins_def ix cb)
  then show ?thesis ..
qed

section \<open>Properties of the uniform-canvas crop\<close>

lemma first_pass_acc_le:
  "first_pass d l t r b (mw, mh) = (mw', mh') \<Longrightarrow> mw \<le> mw' \<and> mh \<le> mh'"
proof (induction d arbitrary: mw mh)
  case Nil
  then show ?case by simp
next
  case (Cons pg rest)
  from Cons.prems have
    "first_pass rest l t r b
       (max mw (cropped_width (rect pg) l r), max mh (cropped_height (rect pg) t b)) = (mw', mh')"
    by simp
  from Cons.IH [OF this] show ?case by simp
qed

lemma first_pass_upper:
  "first_pass d l t r b (mw, mh) = (mw', mh') \<Longrightarrow> pg \<in> set d \<Longrightarrow>
     cropped_width (rect pg) l r \<le> mw' \<and> cropped_height (rect pg) t b \<le> mh'"
proof (induction d arbitrary: mw mh)
  case Nil
  then show ?case by simp
next
  case (Cons q rest)
  from Cons.prems(1) have step:
    "first_pass rest l t r b
       (max mw (cropped_width (rect q) l r), max mh (cropped_height (rect q) t b)) = (mw', mh')"
    by simp
  show ?case
  proof (cases "pg = q")
    case True
    with first_pass_acc_le [OF step] show ?thesis by simp
  next
    case False
    with Cons.prems(2) have "pg \<in> set rest" by simp
    from Cons.IH [OF step this] show ?thesis .
  qed
qed

lemma first_pass_attained:
  "first_pass d l t r b (mw, mh) = (mw', mh') \<Longrightarrow>
     (mw' = mw \<or> (\<exists>pg \<in> set d. cropped_width (rect pg) l r = mw')) \<and>
     (mh' = mh \<or> (\<exists>pg \<in> set d. cropped_height (rect pg) t b = mh'))"
proof (induction d arbitrary: mw mh)
  case Nil
  then show ?case by simp
next
  case (Cons q rest)
  from Cons.prems(1) have step:
    "first_pass rest l t r b
       (max mw (cropped_width (rect q) l r), max mh (cropped_height (rect q) t b)) = (mw', mh')"
    by simp
  from Cons.IH [OF step] show ?case
    by (auto simp: max_def split: if_splits)
qed

lemma first_pass_Max:
  assumes fp: "first_pass d l t r b (0, 0) = (mw, mh)"
  shows "(\<exists>pg \<in> set d. 0 \<le> cropped_width (rect pg) l r) \<Longrightarrow>
           mw = Max ((\<lambda>pg. cropped_width (rect pg) l r) ` set d) \<and>
           (\<exists>pg \<in> set d. cropped_width (rect pg) l r = mw)"
    and "(\<exists>pg \<in> set d. 0 \<le> cropped_height (rect pg) t b) \<Longrightarrow>
           mh = Max ((\<lambda>pg. cropped_height (rect pg) t b) ` set d) \<and>
           (\<exists>pg \<in> set d. cropped_height (rect pg) t b = mh)"
proof -
  have up: "\<And>pg. pg \<in> set d \<Longrightarrow>
      cropped_width (rect pg) l r \<le> mw \<and> cropped_height (rect pg) t b \<le> mh"
    using first_pass_upper [OF fp] by blast
  have att: "(mw = 0 \<or> (\<exists>pg \<in> set d. cropped_width (rect pg) l r = mw)) \<and>
     (mh = 0 \<or> (\<exists>pg \<in> set d. cropped_height (rect pg) t b = mh))"
    using first_pass_attained [OF fp] .
  {
    assume "\<exists>pg \<in> set d. 0 \<le> cropped_width (rect pg) l r"
    then obtain q where q: "q \<in> set d" "0 \<le> cropped_width (rect q) l r" by blast
    have ex: "\<exists>pg \<in> set d. cropped_width (rect pg) l r = mw"
    proof (cases "mw = 0")
      case True
      with up [OF q(1)] q(2) have "cropped_width (rect q) l r = mw" by simp
      with q(1) show ?thesis by blast
    next
      case False
      with att show ?thesis by blast
    qed
    have "Max ((\<lambda>pg. cropped_width (rect pg) l r) ` set d) = mw"
      using ex up by (intro Max_eqI) auto
    with ex show "mw = Max ((\<lambda>pg. cropped_width (rect pg) l r) ` set d) \<and>
           (\<exists>pg \<in> set d. cropped_width (rect pg) l r = mw)" by simp
  }
  {
    assume "\<exists>pg \<in> set d. 0 \<le> cropped_height (rect pg) t b"
    then obtain q where q: "q \<in> set d" "0 \<le> cropped_height (rect q) t b" by blast
    have ex: "\<exists>pg \<in> set d. cropped_height (rect pg) t b = mh"
    proof (cases "mh = 0")
      case True
      with up [OF q(1)] q(2) have "cropped_height (rect q) t b = mh" by simp
      with q(1) show ?thesis by blast
    next
      case False
      with att show ?thesis by blast
    qed
    have "Max ((\<lambda>pg. cropped_height (rect pg) t b) ` set d) = mh"
      using ex up by (intro Max_eqI) auto
    with ex show "mh = Max ((\<lambda>pg. cropped_height (rect pg) t b) ` set d) \<and>
           (\<exists>pg \<in> set d. cropped_height (rect pg) t b = mh)" by simp
  }
qed

lemma place_page_total:
  "\<exists>p. place_page pr n l t r b mw mh = Inr p"
  by (simp add: place_page_def py_div_def Let_def)

lemma place_page_within:
  assumes p: "place_page pr n l t r b mw mh = Inr p"
    and mw: "0 \<le> mw" "cropped_width pr l r \<le> mw"
    and mh: "0 \<le> mh" "cropped_height pr t b \<le> mh"
  shows "0 \<le> x0 (target_rect p) \<and> x0 (target_rect p) \<le> x1 (target_rect p) \<and>
         x1 (target_rect p) \<le> mw \<and>
         0 \<le> y0 (target_rect p) \<and> y0 (target_rect p) \<le> y1 (target_rect p) \<and>
         y1 (target_rect p) \<le> mh \<and> 1 \<le> scale p"
proof -
  define cw where "cw = max 0 (cropped_width pr l r)"
  define ch where "ch = max 0 (cropped_height pr t b)"
  define sx where "sx = (if cw > 0 then mw / cw else 1)"
  define sy where "sy = (if ch > 0 then mh / ch else 1)"
  define sc where "sc = min sx sy"
  have cw0: "0 \<le> cw" "cw \<le> mw" and ch0: "0 \<le> ch" "ch \<le> mh"
    using mw mh by (simp_all add: cw_def ch_def)
  have sx1: "1 \<le> sx" using cw0 by (simp add: sx_def)
  have sy1: "1 \<le> sy" using ch0 by (simp add: sy_def)
  have sc1: "1 \<le> sc" using sx1 sy1 by (simp add: sc_def)
  have "cw * sc \<le> cw * sx"
    using cw0 by (intro mult_left_mono) (simp_all add: sc_def)
  also have "cw * sx \<le> mw"
    using cw0 by (simp add: sx_def)
  finally have w: "cw * sc \<le> mw" .
  have "ch * sc \<le> ch * sy"
    using ch0 by (intro mult_left_mono) (simp_all add: sc_def)
  also have "ch * sy \<le> mh"
    using ch0 by (simp add: sy_def)
  finally have h: "ch * sc \<le> mh" .
  have w0: "0 \<le> cw * sc" and h0: "0 \<le> ch * sc"
    using cw0 ch0 sc1 by simp_all
  have tr: "target_rect p = fitz_Rect ((mw - cw * sc) / 2) ((mh - ch * sc) / 2)
              ((mw - cw * sc) / 2 + cw * sc) ((mh - ch * sc) / 2 + ch * sc)"
    and scp: "scale p = sc"
    using p
    by (auto simp: place_page_def py_div_def Let_def width_def height_def fitz_Rect_def
        cropped_width_def cropped_height_def cw_def ch_def sx_def sy_def sc_def
        split: if_splits)
  show ?thesis
    using w h w0 h0 sc1 by (simp add: tr scp fitz_Rect_def field_simps)
qed

lemma place_page_shape:
  assumes p: "place_page pr n l t r b mw mh = Inr p"
  shows "x1 (target_rect p) - x0 (target_rect p) = width (clip p) * scale p"
    and "y1 (target_rect p) - y0 (target_rect p) = height (clip p) * scale p"
    and "width (clip p) = max 0 (cropped_width pr l r)"
    and "height (clip p) = max 0 (cropped_height pr t b)"
    and "new_width p = mw" and "new_height p = mh"
  using p
  by (auto simp: place_page_def py_div_def Let_def width_def height_def fitz_Rect_def
        cropped_width_def cropped_height_def split: if_splits)

lemma place_page_aspect:
  assumes p: "place_page pr n l t r b mw mh = Inr p"
    and mw: "0 \<le> mw" "cropped_width pr l r \<le> mw"
    and mh: "0 \<le> mh" "cropped_height pr t b \<le> mh"
  shows "width (target_rect p) * height (clip p) = height (target_rect p) * width (clip p)"
    and "0 < height (clip p) \<Longrightarrow>
           width (target_rect p) / height (target_rect p) = width (clip p) / height (clip p)"
proof -
  have sc: "1 \<le> scale p"
    and ord: "x0 (target_rect p) \<le> x1 (target_rect p)" "y0 (target_rect p) \<le> y1 (target_rect p)"
    using place_page_within [OF p mw mh] by simp_all
  have w: "width (target_rect p) = width (clip p) * scale p"
    using ord place_page_shape(1) [OF p] by (simp add: width_def [of "target_rect p"])
  have h: "height (target_rect p) = height (clip p) * scale p"
    using ord place_page_shape(2) [OF p] by (simp add: height_def [of "target_rect p"])
  show "width (target_rect p) * height (clip p) = height (target_rect p) * width (clip p)"
    by (simp add: w h)
  show "width (target_rect p) / height (target_rect p) = width (clip p) / height (clip p)"
    if "0 < height (clip p)"
    using sc that by (simp add: w h)
qed

lemma second_pass_member:
  "second_pass d n l t r b mw mh = Inr out \<Longrightarrow> p \<in> set out \<Longrightarrow>
     \<exists>pg \<in> set d. \<exists>k. place_page (rect pg) k l t r b mw mh = Inr p"
proof (induction d arbitrary: n out)
  case Nil
  then show ?case by simp
next
  case (Cons q rest)
  from Cons.prems(1) obtain p' out' where
    p': "place_page (rect q) n l t r b mw mh = Inr p'"
    and out': "second_pass rest (Suc n) l t r b mw mh = Inr out'"
    and out: "out = p' # out'"
    by (auto split: sum.splits)
  show ?case
  proof (cases "p = p'")
    case True
    with p' show ?thesis by auto
  next
    case False
    with Cons.prems(2) out have "p \<in> set out'" by simp
    from Cons.IH [OF out' this] show ?thesis by auto
  qed
qed

lemma place_page_source: "place_page pr n l t r b mw mh = Inr p \<Longrightarrow> source_page p = n"
  by (auto simp: place_page_def py_div_def Let_def split: if_splits)

lemma second_pass_sources:
  "second_pass d n l t r b mw mh = Inr out \<Longrightarrow> map source_page out = [n..<n + length d]"
proof (induction d arbitrary: n out)
  case Nil
  then show ?case by simp
next
  case (Cons q rest)
  from Cons.prems obtain p' out' where
    p': "place_page (rect q) n l t r b mw mh = Inr p'"
    and out': "second_pass rest (Suc n) l t r b mw mh = Inr out'"
    and out: "out = p' # out'"
    by (auto split: sum.splits)
  have "[n..<n + length (q # rest)] = n # [Suc n..<Suc n + length rest]"
    by (simp add: upt_rec)
  with Cons.IH [OF out'] place_page_source [OF p'] out show ?case
    by simp
qed

lemma second_pass_length:
  assumes "second_pass d n l t r b mw mh = Inr out"
  shows "length out = length d"
proof -
  have "length (map source_page out) = length [n..<n + length d]"
    using second_pass_sources [OF assms] by (rule arg_cong)
  then show ?thesis by simp
qed

text \<open>The paste succeeds on a target and a clip that are not empty, the clip inside the page.\<close>

lemma show_pdf_page_ok:
  assumes "\<not> is_empty target" and "has_contents pg"
    and "x0 (rect pg) \<le> x0 c" "x0 c < x1 c" "x1 c \<le> x1 (rect pg)"
    and "y0 (rect pg) \<le> y0 c" "y0 c < y1 c" "y1 c \<le> y1 (rect pg)"
  shows "show_pdf_page target pg c = Inr ()"
  using assms
  by (auto simp: show_pdf_page_def Let_def is_empty_def is_zero_def rect_and_def fitz_Rect_def)

text \<open>
  A page whose crop is not degenerate is pasted: for margins that are not negative and a
  canvas of at least the cropped size.
\<close>

lemma place_page_pastes:
  assumes p: "place_page (rect pg) n l t r b mw mh = Inr p"
    and c: "has_contents pg"
    and m: "0 \<le> l" "0 \<le> t" "0 \<le> r" "0 \<le> b"
    and w: "0 < cropped_width (rect pg) l r" "cropped_width (rect pg) l r \<le> mw"
    and h: "0 < cropped_height (rect pg) t b" "cropped_height (rect pg) t b \<le> mh"
  shows "show_pdf_page (target_rect p) pg (clip p) = Inr ()"
proof -
  have mw0: "0 \<le> mw" and mh0: "0 \<le> mh" using w h by simp_all
  have sc: "1 \<le> scale p"
    using place_page_within [OF p mw0 w(2) mh0 h(2)] by simp
  have dx: "x1 (target_rect p) - x0 (target_rect p) = width (clip p) * scale p"
    and dy: "y1 (target_rect p) - y0 (target_rect p) = height (clip p) * scale p"
    and cw: "width (clip p) = max 0 (cropped_width (rect pg) l r)"
    and ch: "height (clip p) = max 0 (cropped_height (rect pg) t b)"
    using place_page_shape [OF p] by simp_all
  have "0 < width (clip p) * scale p" "0 < height (clip p) * scale p"
    using sc w(1) h(1) by (simp_all add: cw ch)
  then have target: "\<not> is_empty (target_rect p)"
    using dx dy by (simp add: is_empty_def)
  have clip_eq: "clip p = fitz_Rect (crop_left (rect pg) l) (crop_top (rect pg) t)
                           (crop_right (rect pg) r) (crop_bottom (rect pg) b)"
    using p by (auto simp: place_page_def py_div_def Let_def split: if_splits)
  have wd: "0 \<le> width (rect pg)" and hd: "0 \<le> height (rect pg)"
    by (simp_all add: width_def height_def)
  have inx: "x0 (rect pg) \<le> x0 (clip p)" "x0 (clip p) < x1 (clip p)" "x1 (clip p) \<le> x1 (rect pg)"
    using w(1) wd m(1,3)
    by (simp_all add: clip_eq fitz_Rect_def cropped_width_def crop_left_def crop_right_def)
  have iny: "y0 (rect pg) \<le> y0 (clip p)" "y0 (clip p) < y1 (clip p)" "y1 (clip p) \<le> y1 (rect pg)"
    using h(1) hd m(2,4)
    by (simp_all add: clip_eq fitz_Rect_def cropped_height_def crop_top_def crop_bottom_def)
  show ?thesis
    using target c inx iny by (rule show_pdf_page_ok)
qed

lemma second_pass_ok:
  assumes m: "0 \<le> l" "0 \<le> t" "0 \<le> r" "0 \<le> b"
    and pages: "\<forall>pg \<in> set d. has_contents pg \<and>
        0 < cropped_width (rect pg) l r \<and> cropped_width (rect pg) l r \<le> mw \<and>
        0 < cropped_height (rect pg) t b \<and> cropped_height (rect pg) t b \<le> mh"
  shows "\<exists>out. second_pass d n l t r b mw mh = Inr out"
  using pages
proof (induction d arbitrary: n)
  case Nil
  then show ?case by simp
next
  case (Cons pg rest)
  obtain p where p: "place_page (rect pg) n l t r b mw mh = Inr p"
    using place_page_total by blast
  from Cons.prems have pg: "has_contents pg"
    "0 < cropped_width (rect pg) l r" "cropped_width (rect pg) l r \<le> mw"
    "0 < cropped_height (rect pg) t b" "cropped_height (rect pg) t b \<le> mh"
    by simp_all
  have paste: "show_pdf_page (target_rect p) pg (clip p) = Inr ()"
    using p pg(1) m pg(2,3,4,5) by (rule place_page_pastes)
  from Cons.prems have "\<forall>pg \<in> set rest. has_contents pg \<and>
        0 < cropped_width (rect pg) l r \<and> cropped_width (rect pg) l r \<le> mw \<and>
        0 < cropped_height (rect pg) t b \<and> cropped_height (rect pg) t b \<le> mh"
    by simp
  from Cons.IH [OF this, of "Suc n"] obtain out where
    "second_pass rest (Suc n) l t r b mw mh = Inr out" by blast
  with p paste show ?case by simp
qed

lemma crop_pdf_Inr:
  assumes "crop_pdf d left top' right bottom buffer ratio = Inr res"
  obtains l t r b where
    "margins_in_use d left top' right bottom buffer ratio = Inr (l, t, r, b)"
    "first_pass d l t r b (0, 0) = (canvas_width res, canvas_height res)"
    "second_pass d 0 l t r b (canvas_width res) (canvas_height res) = Inr (output_doc res)"
    "output_doc res \<noteq> []"
    "original_page_count res = length d"
    "output_page_count res = length (output_doc res)"
  using assms
  by (auto simp: crop_pdf_def save_def split: sum.splits prod.splits if_splits)

lemmas crop_eval = crop_pdf_def margins_in_use_def place_page_def py_div_def Let_def width_def
  height_def fitz_Rect_def cropped_width_def cropped_height_def crop_left_def crop_right_def
  crop_top_def crop_bottom_def show_pdf_page_def is_empty_def is_zero_def rect_and_def save_def

lemma two_pages_crop:
  "crop_pdf two_pages (Some (1 / 10)) (Some (1 / 10)) (Some (1 / 10)) (Some (1 / 10))
     (1 / 100) (1 / 10) = Inr two_pages_cropped"
  by (simp add: two_pages_def two_pages_cropped_def crop_eval)

text \<open>
  The division guards of lines 210 and 211: the transform of a page is always computed, no
  division raises, and along a dimension in which the cropped extent is zero or negative
  the scale factor is 1.
\<close>

lemma place_page_degenerate:
  "\<exists>p. place_page pr n l t r b mw mh = Inr p \<and>
       (cropped_width pr l r \<le> 0 \<longrightarrow> scale_x p = 1) \<and>
       (cropped_height pr t b \<le> 0 \<longrightarrow> scale_y p = 1)"
proof -
  obtain p where p: "place_page pr n l t r b mw mh = Inr p"
    using place_page_total by blast
  have "cropped_width pr l r \<le> 0 \<Longrightarrow> scale_x p = 1"
    and "cropped_height pr t b \<le> 0 \<Longrightarrow> scale_y p = 1"
    using p
    by (auto simp: place_page_def py_div_def Let_def width_def height_def fitz_Rect_def
        cropped_width_def cropped_height_def split: if_splits)
  with p show ?thesis by blast
qed

text \<open>The target rectangle of a degenerate crop is empty, so its paste raises.\<close>

lemma degenerate_target_empty:
  assumes p: "place_page pr n l t r b mw mh = Inr p"
    and d: "cropped_width pr l r \<le> 0 \<or> cropped_height pr t b \<le> 0"
  shows "is_empty (target_rect p)"
    and "show_pdf_page (target_rect p) pg (clip p) = Inl ValueError"
proof -
  have dx: "x1 (target_rect p) - x0 (target_rect p) = width (clip p) * scale p"
    and dy: "y1 (target_rect p) - y0 (target_rect p) = height (clip p) * scale p"
    and cw: "width (clip p) = max 0 (cropped_width pr l r)"
    and ch: "height (clip p) = max 0 (cropped_height pr t b)"
    using place_page_shape [OF p] by simp_all
  from d have "width (clip p) = 0 \<or> height (clip p) = 0"
    by (auto simp: cw ch)
  then have "x1 (target_rect p) - x0 (target_rect p) = 0 \<or>
             y1 (target_rect p) - y0 (target_rect p) = 0"
    using dx dy by auto
  then show e: "is_empty (target_rect p)"
    by (auto simp: is_empty_def)
  then show "show_pdf_page (target_rect p) pg (clip p) = Inl ValueError"
    by (simp add: show_pdf_page_def)
qed

text \<open>
  Hence a document with one degenerate page is not cropped: the second pass, and with it
  \<^verbatim>\<open>crop_pdf\<close>, ends with an exception.
\<close>

lemma second_pass_degenerate:
  assumes pg: "pg \<in> set d"
    and dg: "cropped_width (rect pg) l r \<le> 0 \<or> cropped_height (rect pg) t b \<le> 0"
  shows "\<exists>e. second_pass d n l t r b mw mh = Inl e"
  using pg
proof (induction d arbitrary: n)
  case Nil
  then show ?case by simp
next
  case (Cons x rest)
  obtain p where p: "place_page (rect x) n l t r b mw mh = Inr p"
    using place_page_total by blast
  show ?case
  proof (cases "x = pg")
    case True
    with p dg have "show_pdf_page (target_rect p) x (clip p) = Inl ValueError"
      by (intro degenerate_target_empty(2)) simp_all
    with p show ?thesis by simp
  next
    case False
    with Cons.prems have "pg \<in> set rest" by simp
    from Cons.IH [OF this, of "Suc n"] obtain e where
      "second_pass rest (Suc n) l t r b mw mh = Inl e" by blast
    with p show ?thesis by (simp split: sum.splits)
  qed
qed

lemma crop_pdf_degenerate:
  assumes "margins_in_use d left top' right bottom buffer ratio = Inr (l, t, r, b)"
    and "pg \<in> set d"
    and "cropped_width (rect pg) l r \<le> 0 \<or> cropped_height (rect pg) t b \<le> 0"
  shows "\<exists>e. crop_pdf d left top' right bottom buffer ratio = Inl e"
proof -
  obtain mw mh where fp: "first_pass d l t r b (0, 0) = (mw, mh)"
    by (cases "first_pass d l t r b (0, 0)")
  from second_pass_degenerate [OF assms(2,3)] obtain e where
    "second_pass d 0 l t r b mw mh = Inl e" by blast
  with assms(1) fp show ?thesis by (simp add: crop_pdf_def)
qed

text \<open>
  C7. The claim does not hold of the program. On the one-page document with a page of 100
  by 100 and margins of one half left and right, the cropped width is 0; the transform is
  computed without a division and with scale 1, but its target rectangle is empty, the
  paste raises \<^verbatim>\<open>ValueError\<close>, and \<^verbatim>\<open>crop_pdf\<close> ends with that error.
\<close>

theorem degenerate_crop_raises:
  "cropped_width (rect half_cropped_page) (1 / 2) (1 / 2) = 0 \<and>
   place_page (rect half_cropped_page) 0 (1 / 2) 0 (1 / 2) 0 0 100 =
     Inr \<lparr>new_width = 0, new_height = 100, scale_x = 1, scale_y = 1, scale = 1,
          offset_x = 0, offset_y = 0, target_rect = fitz_Rect 0 0 0 100,
          source_page = 0, clip = fitz_Rect 50 0 50 100\<rparr> \<and>
   crop_pdf [half_cropped_page] (Some (1 / 2)) (Some 0) (Some (1 / 2)) (Some 0)
     (1 / 100) (1 / 10) = Inl ValueError"
  by (simp add: half_cropped_page_def crop_eval)

text \<open>
  C6. For every page of the output, the target rectangle lies in the canvas, from (0, 0)
  to (canvas width, canvas height), the new page has the canvas size, and the target
  rectangle has the proportions of the crop rectangle: width times height of the one equals
  height times width of the other, and the two ratios of width to height are equal when the
  crop rectangle has a positive height.
\<close>

theorem target_rect_within_canvas:
  assumes res: "crop_pdf d left top' right bottom buffer ratio = Inr res"
    and p: "p \<in> set (output_doc res)"
  shows "0 \<le> x0 (target_rect p) \<and> x0 (target_rect p) \<le> x1 (target_rect p) \<and>
         x1 (target_rect p) \<le> canvas_width res \<and>
         0 \<le> y0 (target_rect p) \<and> y0 (target_rect p) \<le> y1 (target_rect p) \<and>
         y1 (target_rect p) \<le> canvas_height res \<and>
         new_width p = canvas_width res \<and> new_height p = canvas_height res \<and>
         width (target_rect p) * height (clip p) = height (target_rect p) * width (clip p) \<and>
         (0 < height (clip p) \<longrightarrow>
            width (target_rect p) / height (target_rect p) = width (clip p) / height (clip p))"
proof -
  from res obtain l t r b where
    fp: "first_pass d l t r b (0, 0) = (canvas_width res, canvas_height res)"
    and sp: "second_pass d 0 l t r b (canvas_width res) (canvas_height res) = Inr (output_doc res)"
    by (rule crop_pdf_Inr)
  from second_pass_member [OF sp p] obtain pg k where
    pg: "pg \<in> set d"
    and pl: "place_page (rect pg) k l t r b (canvas_width res) (canvas_height res) = Inr p"
    by blast
  have nonneg: "0 \<le> canvas_width res" "0 \<le> canvas_height res"
    using first_pass_acc_le [OF fp] by simp_all
  have upper: "cropped_width (rect pg) l r \<le> canvas_width res"
    "cropped_height (rect pg) t b \<le> canvas_height res"
    using first_pass_upper [OF fp pg] by simp_all
  show ?thesis
    using place_page_within [OF pl nonneg(1) upper(1) nonneg(2) upper(2)]
      place_page_aspect [OF pl nonneg(1) upper(1) nonneg(2) upper(2)]
      place_page_shape(5,6) [OF pl]
    by simp
qed

theorem target_rect_within_canvas_witness:
  "0 \<le> x0 (fitz_Rect 0 40 80 120) \<and> x1 (fitz_Rect 0 40 80 120) \<le> (80::real) \<and>
   0 \<le> y0 (fitz_Rect 0 40 80 120) \<and> y1 (fitz_Rect 0 40 80 120) \<le> (160::real) \<and>
   width (fitz_Rect 0 40 80 120) / height (fitz_Rect 0 40 80 120) =
   width (fitz_Rect 10 10 90 90) / height (fitz_Rect 10 10 90 90)"
proof -
  let ?p = "\<lparr>new_width = 80, new_height = 160, scale_x = 1, scale_y = 2, scale = 1,
           offset_x = 0, offset_y = 40, target_rect = fitz_Rect 0 40 80 120,
           source_page = 0, clip = fitz_Rect 10 10 90 90\<rparr>"
  have p: "?p \<in> set (output_doc two_pages_cropped)"
    by (simp add: two_pages_cropped_def)
  have h: "0 < height (clip ?p)"
    by (simp add: height_def fitz_Rect_def)
  show ?thesis
    using target_rect_within_canvas [OF two_pages_crop p] h
    by (simp add: two_pages_cropped_def)
qed

text \<open>
  C4, as amended. The canvas that the first pass plans is never smaller, in either
  dimension, than the cropped dimension of any page. When some page has a cropped width
  that is not negative, the canvas width is exactly the maximum of the cropped widths, and
  some page has it; when no page has a positive cropped width, as in a document without
  pages, the canvas width is 0. The same holds for the height.
\<close>

theorem canvas_is_max_cropped_size:
  assumes fp: "first_pass d l t r b (0, 0) = (max_width, max_height)"
  shows "(\<forall>pg \<in> set d. cropped_width (rect pg) l r \<le> max_width \<and>
                       cropped_height (rect pg) t b \<le> max_height) \<and>
         ((\<exists>pg \<in> set d. 0 \<le> cropped_width (rect pg) l r) \<longrightarrow>
            max_width = Max ((\<lambda>pg. cropped_width (rect pg) l r) ` set d) \<and>
            (\<exists>pg \<in> set d. cropped_width (rect pg) l r = max_width)) \<and>
         ((\<exists>pg \<in> set d. 0 \<le> cropped_height (rect pg) t b) \<longrightarrow>
            max_height = Max ((\<lambda>pg. cropped_height (rect pg) t b) ` set d) \<and>
            (\<exists>pg \<in> set d. cropped_height (rect pg) t b = max_height)) \<and>
         ((\<forall>pg \<in> set d. cropped_width (rect pg) l r \<le> 0) \<longrightarrow> max_width = 0) \<and>
         ((\<forall>pg \<in> set d. cropped_height (rect pg) t b \<le> 0) \<longrightarrow> max_height = 0)"
proof -
  have ge: "0 \<le> max_width" "0 \<le> max_height"
    using first_pass_acc_le [OF fp] by simp_all
  have att: "(max_width = 0 \<or> (\<exists>pg \<in> set d. cropped_width (rect pg) l r = max_width)) \<and>
     (max_height = 0 \<or> (\<exists>pg \<in> set d. cropped_height (rect pg) t b = max_height))"
    using first_pass_attained [OF fp] .
  have w0: "max_width = 0" if "\<forall>pg \<in> set d. cropped_width (rect pg) l r \<le> 0"
  proof (rule ccontr)
    assume "max_width \<noteq> 0"
    with att obtain pg where "pg \<in> set d" "cropped_width (rect pg) l r = max_width" by blast
    with that ge(1) \<open>max_width \<noteq> 0\<close> show False by force
  qed
  have h0: "max_height = 0" if "\<forall>pg \<in> set d. cropped_height (rect pg) t b \<le> 0"
  proof (rule ccontr)
    assume "max_height \<noteq> 0"
    with att obtain pg where "pg \<in> set d" "cropped_height (rect pg) t b = max_height" by blast
    with that ge(2) \<open>max_height \<noteq> 0\<close> show False by force
  qed
  show ?thesis
    using first_pass_upper [OF fp] first_pass_Max [OF fp] w0 h0 by blast
qed

theorem canvas_is_max_cropped_size_witness:
  "first_pass two_pages (1 / 10) (1 / 10) (1 / 10) (1 / 10) (0, 0) = (80, 160) \<and>
   Max ((\<lambda>pg. cropped_width (rect pg) (1 / 10) (1 / 10)) ` set two_pages) = 80 \<and>
   Max ((\<lambda>pg. cropped_height (rect pg) (1 / 10) (1 / 10)) ` set two_pages) = 160"
proof -
  have fp: "first_pass two_pages (1 / 10) (1 / 10) (1 / 10) (1 / 10) (0, 0) = (80, 160)"
    by (simp add: two_pages_def crop_eval)
  have w: "\<exists>pg \<in> set two_pages. 0 \<le> cropped_width (rect pg) (1 / 10) (1 / 10)"
    and h: "\<exists>pg \<in> set two_pages. 0 \<le> cropped_height (rect pg) (1 / 10) (1 / 10)"
    by (simp_all add: two_pages_def crop_eval)
  show ?thesis
    using canvas_is_max_cropped_size [OF fp] w h fp by simp
qed

text \<open>
  C4 as the specification states it fails for the margins 9/10 left and right on a page
  of width 100: the cropped width is -80, the planned canvas width is 0, and no page has
  it.
\<close>

theorem canvas_not_max_counterexample:
  "first_pass [half_cropped_page] (9 / 10) 0 (9 / 10) 0 (0, 0) = (0, 100) \<and>
   cropped_width (rect half_cropped_page) (9 / 10) (9 / 10) = - 80"
  by (simp add: half_cropped_page_def crop_eval)

text \<open>
  C10, as amended. Whenever the crop returns, the document has at least one page and the
  output has exactly one page for each input page, in order, so that the two page counts
  it reports are equal; this holds for pages without content pixels as for others. The
  crop returns when, for the margins in use, no margin is negative, the document has a
  page, every page has contents and every page keeps a positive width and height after the
  crop.
\<close>

theorem one_output_page_per_input_page:
  "(crop_pdf d left top' right bottom buffer ratio = Inr res \<longrightarrow>
      d \<noteq> [] \<and> length (output_doc res) = length d \<and>
      map source_page (output_doc res) = [0..<length d] \<and>
      original_page_count res = length d \<and>
      output_page_count res = original_page_count res) \<and>
   (margins_in_use d left top' right bottom buffer ratio = Inr (l, t, r, b) \<and>
    0 \<le> l \<and> 0 \<le> t \<and> 0 \<le> r \<and> 0 \<le> b \<and> d \<noteq> [] \<and>
    (\<forall>pg \<in> set d. has_contents pg \<and> 0 < cropped_width (rect pg) l r \<and>
                    0 < cropped_height (rect pg) t b) \<longrightarrow>
    (\<exists>res'. crop_pdf d left top' right bottom buffer ratio = Inr res'))"
proof (intro conjI impI)
  assume res: "crop_pdf d left top' right bottom buffer ratio = Inr res"
  from res obtain l' t' r' b' where
    sp: "second_pass d 0 l' t' r' b' (canvas_width res) (canvas_height res) = Inr (output_doc res)"
    and ne: "output_doc res \<noteq> []"
    and oc: "original_page_count res = length d"
    and pc: "output_page_count res = length (output_doc res)"
    by (rule crop_pdf_Inr)
  have src: "map source_page (output_doc res) = [0..<length d]"
    using second_pass_sources [OF sp] by simp
  have len: "length (output_doc res) = length d"
    using sp by (rule second_pass_length)
  show "d \<noteq> []" using ne len by auto
  show "length (output_doc res) = length d" by (rule len)
  show "map source_page (output_doc res) = [0..<length d]" by (rule src)
  show "original_page_count res = length d" by (rule oc)
  show "output_page_count res = original_page_count res" by (simp add: oc pc len)
next
  assume a: "margins_in_use d left top' right bottom buffer ratio = Inr (l, t, r, b) \<and>
    0 \<le> l \<and> 0 \<le> t \<and> 0 \<le> r \<and> 0 \<le> b \<and> d \<noteq> [] \<and>
    (\<forall>pg \<in> set d. has_contents pg \<and> 0 < cropped_width (rect pg) l r \<and>
                    0 < cropped_height (rect pg) t b)"
  obtain mw mh where fp: "first_pass d l t r b (0, 0) = (mw, mh)"
    by (cases "first_pass d l t r b (0, 0)")
  have "\<forall>pg \<in> set d. has_contents pg \<and>
        0 < cropped_width (rect pg) l r \<and> cropped_width (rect pg) l r \<le> mw \<and>
        0 < cropped_height (rect pg) t b \<and> cropped_height (rect pg) t b \<le> mh"
    using a first_pass_upper [OF fp] by blast
  with a have "\<exists>out. second_pass d 0 l t r b mw mh = Inr out"
    by (intro second_pass_ok) simp_all
  then obtain out where sp: "second_pass d 0 l t r b mw mh = Inr out" by blast
  have "length out = length d"
    using sp by (rule second_pass_length)
  with a have "out \<noteq> []" by auto
  then show "\<exists>res'. crop_pdf d left top' right bottom buffer ratio = Inr res'"
    using a fp sp by (simp add: crop_pdf_def save_def)
qed

theorem one_output_page_per_input_page_witness:
  "output_page_count
     (projr (crop_pdf [corner_page, white_page] None None None None (1 / 100) (1 / 10))) = 2"
proof -
  let ?d = "[corner_page, white_page]"
  have corner: "get_content_bbox corner_page (19 / 20) (1 / 10) = Inr (fitz_Rect 0 0 0 0)"
    by (simp add: corner_page_def bbox_eval)
  have white: "get_content_bbox white_page (19 / 20) (1 / 10) = Inr (fitz_Rect 0 0 1 1)"
    by (simp add: white_page_def bbox_eval)
  have rects: "rect corner_page = fitz_Rect 0 0 1 1" "rect white_page = fitz_Rect 0 0 1 1"
    by (simp_all add: corner_page_def white_page_def)
  have m: "margins_in_use ?d None None None None (1 / 100) (1 / 10) =
             Inr (0, 0, 6 / 25, 6 / 25)"
    using corner white rects
    by (simp add: margins_in_use_def or_auto_def agg_eval fitz_Rect_def)
  have pages: "\<forall>pg \<in> set ?d. has_contents pg \<and> 0 < cropped_width (rect pg) 0 (6 / 25) \<and>
                    0 < cropped_height (rect pg) 0 (6 / 25)"
    by (simp add: corner_page_def white_page_def crop_eval)
  let ?res = "projr (crop_pdf ?d None None None None (1 / 100) (1 / 10))"
  note at_d = one_output_page_per_input_page
      [of ?d None None None None "1 / 100" "1 / 10" ?res 0 0 "6 / 25" "6 / 25"]
  have "\<exists>res'. crop_pdf ?d None None None None (1 / 100) (1 / 10) = Inr res'"
    using at_d m pages by simp
  then have r: "crop_pdf ?d None None None None (1 / 100) (1 / 10) = Inr ?res"
    by auto
  from at_d r have "output_page_count ?res = original_page_count ?res \<and>
      original_page_count ?res = length ?d"
    by blast
  then show ?thesis by simp
qed

text \<open>
  C10 as stated fails on the document without pages: with the four margins given, both
  passes do nothing, the save raises, and no count is reported.
\<close>

theorem empty_document_counterexample:
  "crop_pdf [] (Some 0) (Some 0) (Some 0) (Some 0) (1 / 100) (1 / 10) = Inl ValueError"
  by (simp add: crop_eval)

section \<open>Properties of the manual crop\<close>

lemma counter_add_keys: "fst ` set (counter_add k c) = insert k (fst ` set c)"
  by (induction k c rule: counter_add.induct) auto

lemma counter_add_distinct: "distinct (map fst c) \<Longrightarrow> distinct (map fst (counter_add k c))"
proof (induction k c rule: counter_add.induct)
  case (1 k)
  then show ?case by simp
next
  case (2 k k' c rest)
  then show ?case
    using counter_add_keys [of k rest] by (auto simp: image_iff)
qed

lemma counter_add_map_of:
  "map_of (counter_add k c) =
     (map_of c)(k \<mapsto> (case map_of c k of None \<Rightarrow> 1 | Some n \<Rightarrow> n + 1))"
  by (induction k c rule: counter_add.induct) (auto simp: fun_eq_iff)

lemma Counter_snoc: "Counter (xs @ [k]) = counter_add k (Counter xs)"
  by (simp add: Counter_def)

lemma Counter_props:
  "distinct (map fst (Counter xs)) \<and> fst ` set (Counter xs) = set xs \<and>
   (\<forall>k. map_of (Counter xs) k = (if k \<in> set xs then Some (count_list xs k) else None))"
proof (induction xs rule: rev_induct)
  case Nil
  then show ?case by (simp add: Counter_def)
next
  case (snoc k xs)
  then show ?case
    by (auto simp: Counter_snoc counter_add_distinct counter_add_keys counter_add_map_of)
qed

lemma Counter_keys: "fst ` set (Counter xs) = set xs"
  using Counter_props [of xs] by simp

lemma Counter_distinct: "distinct (map fst (Counter xs))"
  using Counter_props [of xs] by simp

lemma Counter_map_of:
  "k \<in> set xs \<Longrightarrow> map_of (Counter xs) k = Some (count_list xs k)"
  using Counter_props [of xs] by simp

lemma Counter_entry:
  assumes "(k, n) \<in> set (Counter xs)"
  shows "k \<in> set xs \<and> n = count_list xs k"
proof -
  from assms have "fst (k, n) \<in> fst ` set (Counter xs)" by (rule imageI)
  then have k: "k \<in> set xs" by (simp add: Counter_keys)
  from assms have "map_of (Counter xs) k = Some n"
    using map_of_eq_Some_iff [OF Counter_distinct, of xs k n] by simp
  with k show ?thesis by (simp add: Counter_map_of)
qed

lemma first_max_mem: "first_max best rest \<in> set (best # rest)"
  by (induction best rest rule: first_max.induct) auto

lemma first_max_ge: "kv \<in> set (best # rest) \<Longrightarrow> snd kv \<le> snd (first_max best rest)"
proof (induction best rest arbitrary: kv rule: first_max.induct)
  case (1 best)
  then show ?case by simp
next
  case (2 best x rest)
  have step: "snd best \<le> snd (first_max (if snd best < snd x then x else best) rest)"
    "snd x \<le> snd (first_max (if snd best < snd x then x else best) rest)"
    using "2.IH" [of "if snd best < snd x then x else best"]
    by (auto split: if_splits intro: order_trans less_imp_le)
  from "2.prems" consider "kv = best" | "kv = x" | "kv \<in> set rest" by auto
  then show ?case
  proof cases
    case 1 with step show ?thesis by simp
  next
    case 2 with step show ?thesis by simp
  next
    case 3 then show ?thesis using "2.IH" [of kv] by simp
  qed
qed

lemma most_common_1_ok:
  assumes "xs \<noteq> []"
  shows "\<exists>s n. most_common_1 (Counter xs) = Inr (s, n) \<and> s \<in> set xs \<and> n = count_list xs s \<and>
           0 < n \<and> (\<forall>t. count_list xs t \<le> n)"
proof -
  have keys: "fst ` set (Counter xs) = set xs" by (rule Counter_keys)
  have "Counter xs \<noteq> []"
  proof
    assume "Counter xs = []"
    with keys have "set xs = {}" by simp
    with assms show False by simp
  qed
  then obtain kv rest where c: "Counter xs = kv # rest"
    by (cases "Counter xs") simp_all
  define m where "m = first_max kv rest"
  have mc: "most_common_1 (Counter xs) = Inr (fst m, snd m)"
    by (simp add: most_common_1_def c m_def)
  have "m \<in> set (Counter xs)"
    using first_max_mem [of kv rest] by (simp only: c m_def)
  then have "(fst m, snd m) \<in> set (Counter xs)" by simp
  then have m: "fst m \<in> set xs \<and> snd m = count_list xs (fst m)"
    by (rule Counter_entry)
  have "count_list xs (fst m) \<noteq> 0"
    using m count_list_0_iff [of xs "fst m"] by blast
  with m have pos: "0 < snd m" by simp
  have ge: "count_list xs t \<le> snd m" for t
  proof (cases "t \<in> set xs")
    case False
    then have "count_list xs t = 0" by (simp add: count_list_0_iff)
    then show ?thesis by simp
  next
    case True
    then have "map_of (Counter xs) t = Some (count_list xs t)"
      by (rule Counter_map_of)
    then have "(t, count_list xs t) \<in> set (kv # rest)"
      unfolding c [symmetric] by (rule map_of_SomeD)
    from first_max_ge [OF this] show ?thesis by (simp add: m_def)
  qed
  from mc m pos ge show ?thesis by blast
qed

lemma manual_loop_spec:
  "manual_loop d n lo hi size0 cr (out, c, u) =
     (if \<forall>(i, pg) \<in> set (zip [n..<n + length d] d). to_crop lo hi size0 i pg \<longrightarrow> pastes cr pg
      then Inr
        (out @ map (\<lambda>(i, pg). manual_page_of lo hi size0 cr i pg) (zip [n..<n + length d] d),
         c + length (filter (\<lambda>(i, pg). to_crop lo hi size0 i pg) (zip [n..<n + length d] d)),
         u + length (filter (\<lambda>(i, pg). \<not> to_crop lo hi size0 i pg) (zip [n..<n + length d] d)))
      else Inl ValueError)"
proof (induction d arbitrary: n out c u)
  case Nil
  then show ?case by simp
next
  case (Cons pg rest)
  have up: "[n..<n + length (pg # rest)] = n # [Suc n..<Suc n + length rest]"
    by (simp add: upt_rec)
  have err: "show_pdf_page target pg cr \<noteq> Inr () \<Longrightarrow> show_pdf_page target pg cr = Inl ValueError"
    for target
    by (simp add: show_pdf_page_def Let_def split: if_splits)
  have step: "manual_loop (pg # rest) n lo hi size0 cr (out, c, u) =
      (if to_crop lo hi size0 n pg
       then if pastes cr pg
            then manual_loop rest (Suc n) lo hi size0 cr
              (out @ [Cropped (width cr) (height cr) (fitz_Rect 0 0 (width cr) (height cr)) n cr],
               c + 1, u)
            else Inl ValueError
       else manual_loop rest (Suc n) lo hi size0 cr (out @ [Inserted n pg], c, u + 1))"
    using err [of "fitz_Rect 0 0 (width cr) (height cr)"]
    by (auto simp: to_crop_def rounded_size_def Let_def pastes_def split: sum.splits)
  have head: "manual_page_of lo hi size0 cr n pg =
      (if to_crop lo hi size0 n pg
       then Cropped (width cr) (height cr) (fitz_Rect 0 0 (width cr) (height cr)) n cr
       else Inserted n pg)"
    by (simp add: manual_page_of_def)
  show ?case
  proof (cases "to_crop lo hi size0 n pg")
    case True
    note crop = this
    show ?thesis
    proof (cases "pastes cr pg")
      case True
      with crop show ?thesis
        by (simp only: step Cons.IH up) (simp add: head)
    next
      case False
      with crop show ?thesis
        by (simp only: step up) simp
    qed
  next
    case False
    then show ?thesis
      by (simp only: step Cons.IH up) (simp add: head)
  qed
qed

lemma filter_partition_length:
  "length (filter P xs) + length (filter (\<lambda>x. \<not> P x) xs) = length xs"
  by (induction xs) auto

lemma pastes_inside:
  assumes "has_contents pg"
    and "x0 (rect pg) \<le> x0 c" "x0 c < x1 c" "x1 c \<le> x1 (rect pg)"
    and "y0 (rect pg) \<le> y0 c" "y0 c < y1 c" "y1 c \<le> y1 (rect pg)"
  shows "pastes c pg"
proof -
  have "\<not> is_empty (fitz_Rect 0 0 (width c) (height c))"
    using assms by (simp add: is_empty_def fitz_Rect_def width_def height_def)
  then show ?thesis
    unfolding pastes_def using assms by (rule show_pdf_page_ok)
qed

text \<open>
  C5. Whenever the manual crop returns: the size it gates on is a rounded page size of
  greatest count; output page \<open>i\<close> is the crop with the given rectangle exactly when
  \<open>i + 1\<close> lies in the inclusive page range and the rounded size of page \<open>i\<close> is that
  size, and is the source page itself otherwise; the two counters add up to the number of
  pages. It returns when the document has a page, the page on display has a width and a
  height, the crop rectangle is not empty, and every page whose rounded size has the
  greatest count has contents and contains the crop rectangle.
\<close>

theorem manual_crop_gate:
  "(manual_crop_pdf self crop_rect = Inr res \<longrightarrow>
      most_common res \<in> set (map rounded_size (doc self)) \<and>
      (\<forall>s. count_list (map rounded_size (doc self)) s \<le>
             count_list (map rounded_size (doc self)) (most_common res)) \<and>
      length (pages_out res) = length (doc self) \<and>
      (\<forall>i < length (doc self).
         pages_out res ! i =
           (if (min_page self \<le> int i + 1 \<and> int i + 1 \<le> max_page self) \<and>
               rounded_size (doc self ! i) = most_common res
            then Cropped (width crop_rect) (height crop_rect)
                   (fitz_Rect 0 0 (width crop_rect) (height crop_rect)) i crop_rect
            else Inserted i (doc self ! i))) \<and>
      cropped res + unchanged res = length (doc self)) \<and>
   (doc self \<noteq> [] \<and> width (page_rect self) \<noteq> 0 \<and> height (page_rect self) \<noteq> 0 \<and>
    x0 crop_rect < x1 crop_rect \<and> y0 crop_rect < y1 crop_rect \<and>
    (\<forall>pg \<in> set (doc self).
        (\<forall>s. count_list (map rounded_size (doc self)) s \<le>
              count_list (map rounded_size (doc self)) (rounded_size pg)) \<longrightarrow>
        has_contents pg \<and>
        x0 (rect pg) \<le> x0 crop_rect \<and> x1 crop_rect \<le> x1 (rect pg) \<and>
        y0 (rect pg) \<le> y0 crop_rect \<and> y1 crop_rect \<le> y1 (rect pg)) \<longrightarrow>
    (\<exists>res'. manual_crop_pdf self crop_rect = Inr res'))"
proof (intro conjI impI)
  let ?sizes = "map rounded_size (doc self)"
  let ?z = "zip [0..<0 + length (doc self)] (doc self)"
  assume r: "manual_crop_pdf self crop_rect = Inr res"
  have ne: "?sizes \<noteq> []"
  proof
    assume "?sizes = []"
    then have "Counter ?sizes = []" by (simp add: Counter_def)
    with r show False by (simp add: manual_crop_pdf_def most_common_1_def)
  qed
  from most_common_1_ok [OF ne] obtain s n where
    mc: "most_common_1 (Counter ?sizes) = Inr (s, n)"
    and s: "s \<in> set ?sizes" "\<forall>t. count_list ?sizes t \<le> n" "n = count_list ?sizes s"
    by blast
  have res: "res =
     \<lparr>most_common = s, most_common_count = n,
      pages_out = map (\<lambda>(i, pg). manual_page_of (min_page self) (max_page self) s crop_rect i pg) ?z,
      cropped = length (filter (\<lambda>(i, pg). to_crop (min_page self) (max_page self) s i pg) ?z),
      unchanged = length (filter (\<lambda>(i, pg). \<not> to_crop (min_page self) (max_page self) s i pg) ?z)\<rparr>"
    using r mc
    by (simp add: manual_crop_pdf_def Let_def py_div_def manual_loop_spec save_def
        split: if_splits)
  show "most_common res \<in> set ?sizes" using s(1) by (simp add: res)
  show "\<forall>t. count_list ?sizes t \<le> count_list ?sizes (most_common res)"
    using s(2,3) by (simp add: res)
  show "length (pages_out res) = length (doc self)" by (simp add: res)
  show "\<forall>i < length (doc self).
         pages_out res ! i =
           (if (min_page self \<le> int i + 1 \<and> int i + 1 \<le> max_page self) \<and>
               rounded_size (doc self ! i) = most_common res
            then Cropped (width crop_rect) (height crop_rect)
                   (fitz_Rect 0 0 (width crop_rect) (height crop_rect)) i crop_rect
            else Inserted i (doc self ! i))"
    by (simp add: res manual_page_of_def to_crop_def)
  show "cropped res + unchanged res = length (doc self)"
    using filter_partition_length
      [of "\<lambda>(i, pg). to_crop (min_page self) (max_page self) s i pg" ?z]
    by (simp add: res case_prod_unfold)
next
  let ?sizes = "map rounded_size (doc self)"
  assume a: "doc self \<noteq> [] \<and> width (page_rect self) \<noteq> 0 \<and> height (page_rect self) \<noteq> 0 \<and>
    x0 crop_rect < x1 crop_rect \<and> y0 crop_rect < y1 crop_rect \<and>
    (\<forall>pg \<in> set (doc self).
        (\<forall>s. count_list (map rounded_size (doc self)) s \<le>
              count_list (map rounded_size (doc self)) (rounded_size pg)) \<longrightarrow>
        has_contents pg \<and>
        x0 (rect pg) \<le> x0 crop_rect \<and> x1 crop_rect \<le> x1 (rect pg) \<and>
        y0 (rect pg) \<le> y0 crop_rect \<and> y1 crop_rect \<le> y1 (rect pg))"
  then have "?sizes \<noteq> []" by simp
  from most_common_1_ok [OF this] obtain s n where
    mc: "most_common_1 (Counter ?sizes) = Inr (s, n)"
    and s: "\<forall>t. count_list ?sizes t \<le> n" "n = count_list ?sizes s"
    by blast
  have all: "pastes crop_rect pg" if "pg \<in> set (doc self)" "rounded_size pg = s" for pg
  proof -
    have "\<forall>t. count_list ?sizes t \<le> count_list ?sizes (rounded_size pg)"
      using s that(2) by simp
    with a that(1) have "has_contents pg \<and>
        x0 (rect pg) \<le> x0 crop_rect \<and> x1 crop_rect \<le> x1 (rect pg) \<and>
        y0 (rect pg) \<le> y0 crop_rect \<and> y1 crop_rect \<le> y1 (rect pg)"
      by blast
    with a show ?thesis by (intro pastes_inside) simp_all
  qed
  have "\<forall>(i, pg) \<in> set (zip [0..<0 + length (doc self)] (doc self)).
          to_crop (min_page self) (max_page self) s i pg \<longrightarrow> pastes crop_rect pg"
    using all by (auto dest: set_zip_rightD simp: to_crop_def)
  then show "\<exists>res'. manual_crop_pdf self crop_rect = Inr res'"
    using a mc
    by (simp add: manual_crop_pdf_def Let_def py_div_def manual_loop_spec save_def)
qed

lemma mixed_doc_sizes:
  "map rounded_size mixed_doc = [(600, 800), (400, 600), (600, 800), (600, 800)]"
  by (simp add: mixed_doc_def rounded_size_def py_round_def width_def height_def fitz_Rect_def
      Let_def)

theorem manual_crop_gate_witness:
  "manual_crop_pdf
     \<lparr>doc = mixed_doc, min_page = 1, max_page = 3, page_rect = fitz_Rect 0 0 600 800\<rparr>
     (fitz_Rect 50 50 550 750) =
   Inr \<lparr>most_common = (600, 800), most_common_count = 3,
        pages_out =
          [Cropped 500 700 (fitz_Rect 0 0 500 700) 0 (fitz_Rect 50 50 550 750),
           Inserted 1 \<lparr>rect = fitz_Rect 0 0 400 600, img_array = [], has_contents = True\<rparr>,
           Cropped 500 700 (fitz_Rect 0 0 500 700) 2 (fitz_Rect 50 50 550 750),
           Inserted 3 \<lparr>rect = fitz_Rect 0 0 600 800, img_array = [], has_contents = True\<rparr>],
        cropped = 2, unchanged = 2\<rparr>"
proof -
  let ?self = "\<lparr>doc = mixed_doc, min_page = 1, max_page = 3, page_rect = fitz_Rect 0 0 600 800\<rparr>"
  let ?crop = "fitz_Rect 50 50 550 750"
  let ?sizes = "[(600, 800), (400, 600), (600, 800), (600, 800)] :: (int \<times> int) list"
  have small: "\<not> (\<forall>s. count_list ?sizes s \<le> count_list ?sizes (400, 600))"
  proof
    assume "\<forall>s. count_list ?sizes s \<le> count_list ?sizes (400, 600)"
    then have "count_list ?sizes (600, 800) \<le> count_list ?sizes (400, 600)" by (rule spec)
    then show False by simp
  qed
  have pages: "\<forall>pg \<in> set (doc ?self).
        (\<forall>s. count_list (map rounded_size (doc ?self)) s \<le>
              count_list (map rounded_size (doc ?self)) (rounded_size pg)) \<longrightarrow>
        has_contents pg \<and>
        x0 (rect pg) \<le> x0 ?crop \<and> x1 ?crop \<le> x1 (rect pg) \<and>
        y0 (rect pg) \<le> y0 ?crop \<and> y1 ?crop \<le> y1 (rect pg)"
    using small mixed_doc_sizes
    by (simp add: mixed_doc_def rounded_size_def py_round_def width_def height_def fitz_Rect_def
        Let_def)
  have rest: "doc ?self \<noteq> []" "width (page_rect ?self) \<noteq> 0" "height (page_rect ?self) \<noteq> 0"
    "x0 ?crop < x1 ?crop" "y0 ?crop < y1 ?crop"
    by (simp_all add: mixed_doc_def width_def height_def fitz_Rect_def)
  let ?res = "projr (manual_crop_pdf ?self ?crop)"
  note at_doc = manual_crop_gate [of ?self ?crop ?res]
  have "\<exists>res'. manual_crop_pdf ?self ?crop = Inr res'"
    using at_doc pages rest by blast
  then have r: "manual_crop_pdf ?self ?crop = Inr ?res" by auto
  from at_doc r have gate: "length (pages_out ?res) = length (doc ?self) \<and>
      cropped ?res + unchanged ?res = length (doc ?self)"
    by blast
  have v: "manual_crop_pdf ?self ?crop =
   Inr \<lparr>most_common = (600, 800), most_common_count = 3,
        pages_out =
          [Cropped 500 700 (fitz_Rect 0 0 500 700) 0 (fitz_Rect 50 50 550 750),
           Inserted 1 \<lparr>rect = fitz_Rect 0 0 400 600, img_array = [], has_contents = True\<rparr>,
           Cropped 500 700 (fitz_Rect 0 0 500 700) 2 (fitz_Rect 50 50 550 750),
           Inserted 3 \<lparr>rect = fitz_Rect 0 0 600 800, img_array = [], has_contents = True\<rparr>],
        cropped = 2, unchanged = 2\<rparr>"
    by (simp add: manual_crop_pdf_def mixed_doc_def rounded_size_def py_round_def Counter_def
        most_common_1_def py_div_def width_def height_def fitz_Rect_def Let_def
        show_pdf_page_def is_empty_def is_zero_def rect_and_def save_def)
  from gate v show ?thesis by simp
qed

end
